theory Spec2Isabelle
  imports Main "HOL-Library.AList" "HOL-Library.While_Combinator" "HOL-Library.Multiset"
begin

section \<open>Data model\<close>

text \<open>
  The enumerations of \<^verbatim>\<open>constants\<close>: the error signals thrown by the graph
  engine and the ten colour identifiers.
\<close>

datatype GraphError =
    RootChange | RootRemoval | EntryDuplicate | EmptyName | InvalidInput
  | ZeroDuration | NegativeDuration | MissingEntry | MissingParent | MissingChild
  | SelfReference | RootReference | GraphLoop | NodeLimitExceeded

datatype Color =
    Color1 | Color2 | Color3 | Color4 | Color5
  | Color6 | Color7 | Color8 | Color9 | Color10

text \<open>
  A JavaScript \<^verbatim>\<open>Date\<close> is a mutable object. It is modelled as a reference
  (an address) into a store of time values, milliseconds since the epoch. The graph
  engine only stores and hands on such references.
\<close>

type_synonym dateref = nat

text \<open>
  A JavaScript \<^verbatim>\<open>Set<string>\<close> iterates in insertion order and holds no
  duplicates: it is a list in which \<open>set_add\<close> appends an absent element and
  \<open>set_delete\<close> removes an element. \<^verbatim>\<open>new Set(array)\<close> adds the elements
  of the array one by one. The size of the set is the length of the list.
\<close>

definition set_add :: "'a \<Rightarrow> 'a list \<Rightarrow> 'a list" where
  "set_add x s = (if x \<in> set s then s else s @ [x])"

definition set_delete :: "'a \<Rightarrow> 'a list \<Rightarrow> 'a list" where
  "set_delete x s = removeAll x s"

definition new_Set :: "'a list \<Rightarrow> 'a list" where
  "new_Set xs = fold set_add xs []"

text \<open>
  \<open>orEmpty s\<close> reads a set or array that may be \<^verbatim>\<open>null\<close>, with nothing in
  it when it is: \<^verbatim>\<open>s ?? []\<close>.
\<close>

definition orEmpty :: "'a list option \<Rightarrow> 'a list" where
  "orEmpty s = (case s of None \<Rightarrow> [] | Some xs \<Rightarrow> xs)"

text \<open>The type \<^verbatim>\<open>entryNode\<close>; \<^verbatim>\<open>null\<close> is \<open>None\<close>.\<close>

record entryNode =
  name :: string
  duration :: int
  parents :: "string list option"
  children :: "string list option"
  color :: Color
  start :: "dateref option"

text \<open>
  A JavaScript \<^verbatim>\<open>Map<string, entryNode>\<close> is an association list in
  insertion order: \<^verbatim>\<open>get\<close> is \<open>map_of\<close>, \<^verbatim>\<open>set\<close> is
  \<open>AList.update\<close> (a present key keeps its place, a new key goes to the end),
  \<^verbatim>\<open>delete\<close> is \<open>AList.delete\<close> and \<^verbatim>\<open>size\<close> is the length.
  The nodes are objects held by reference; writing a field of the node stored under a
  key is \<open>modify\<close>.
\<close>

type_synonym adjList = "(string \<times> entryNode) list"

definition has :: "adjList \<Rightarrow> string \<Rightarrow> bool" where
  "has l k = (map_of l k \<noteq> None)"

definition modify :: "string \<Rightarrow> (entryNode \<Rightarrow> entryNode) \<Rightarrow> adjList \<Rightarrow> adjList" where
  "modify k f l = map (\<lambda>(k', n). if k' = k then (k', f n) else (k', n)) l"

text \<open>The fields of the class \<^verbatim>\<open>AdjacencyList\<close>.\<close>

record graph =
  ident :: string
  list :: adjList
  defaultColor :: Color
  startDate :: dateref
  rootName :: string

definition MAX_NODES :: nat where
  "MAX_NODES = 10000"

section \<open>The graph engine\<close>

definition getNodeCount :: "graph \<Rightarrow> nat" where
  "getNodeCount g = length (list g)"

definition getRemainingCapacity :: "graph \<Rightarrow> int" where
  "getRemainingCapacity g = int MAX_NODES - int (length (list g))"

definition isAtCapacity :: "graph \<Rightarrow> bool" where
  "isAtCapacity g = (length (list g) \<ge> MAX_NODES)"

definition setDefaultColor :: "graph \<Rightarrow> Color \<Rightarrow> graph" where
  "setDefaultColor g c = g\<lparr>defaultColor := c\<rparr>"

definition setStartDate :: "graph \<Rightarrow> dateref \<Rightarrow> graph" where
  "setStartDate g d = g\<lparr>startDate := d\<rparr>"

text \<open>
  \<^verbatim>\<open>ensureRootBinding\<close>: nothing happens for the root itself or when either
  node is missing. A node with more than one parent loses the root as a parent (and
  the root loses it as a child, when the root has a child set); after that, a node
  whose parent set is present and empty is bound to the root.
\<close>

definition ensureRootBinding :: "graph \<Rightarrow> string \<Rightarrow> graph" where
  "ensureRootBinding g nodeName =
    (if nodeName = rootName g then g
     else case (map_of (list g) nodeName, map_of (list g) (rootName g)) of
       (Some node, Some rootNode) \<Rightarrow>
         let l1 =
           (case parents node of
              Some ps \<Rightarrow>
                if length ps > 1 then
                  modify (rootName g)
                    (\<lambda>n. n\<lparr>children := map_option (set_delete nodeName) (children n)\<rparr>)
                    (modify nodeName
                      (\<lambda>n. n\<lparr>parents := map_option (set_delete (rootName g)) (parents n)\<rparr>)
                      (list g))
                else list g
            | None \<Rightarrow> list g);
             l2 =
           (case map_of l1 nodeName of
              Some node1 \<Rightarrow>
                (case parents node1 of
                   Some ps \<Rightarrow>
                     if length ps = 0 then
                       modify (rootName g)
                         (\<lambda>n. n\<lparr>children := Some (set_add nodeName (orEmpty (children n)))\<rparr>)
                         (modify nodeName
                           (\<lambda>n. n\<lparr>parents := map_option (set_add (rootName g)) (parents n)\<rparr>)
                           l1)
                     else l1
                 | None \<Rightarrow> l1)
            | None \<Rightarrow> l1)
         in g\<lparr>list := l2\<rparr>
     | _ \<Rightarrow> g)"

text \<open>
  \<^verbatim>\<open>bindChildNode\<close>: returns at once when either node is missing; otherwise
  the child is added to the node's child set and the node to the child's parent set
  (a \<^verbatim>\<open>null\<close> set is first replaced by an empty one), and the root binding of
  the child is re-established.
\<close>

definition bindChildNode :: "graph \<Rightarrow> string \<Rightarrow> string \<Rightarrow> graph" where
  "bindChildNode g childNodeName nodeName =
    (case (map_of (list g) nodeName, map_of (list g) childNodeName) of
       (Some node, Some childNode) \<Rightarrow>
         let l1 = modify nodeName
                    (\<lambda>n. n\<lparr>children := Some (set_add childNodeName (orEmpty (children n)))\<rparr>)
                    (list g);
             l2 = modify childNodeName
                    (\<lambda>n. n\<lparr>parents := Some (set_add nodeName (orEmpty (parents n)))\<rparr>)
                    l1
         in ensureRootBinding (g\<lparr>list := l2\<rparr>) childNodeName
     | _ \<Rightarrow> g)"

text \<open>
  \<^verbatim>\<open>unbindChildNode\<close>: the child leaves the node's child set, which becomes
  \<^verbatim>\<open>null\<close> when that empties it; the node leaves the child's parent set; the
  root binding of the child is re-established unless the node is the root.
\<close>

definition unbindChildNode :: "graph \<Rightarrow> string \<Rightarrow> string \<Rightarrow> graph" where
  "unbindChildNode g childNodeName nodeName =
    (case (map_of (list g) nodeName, map_of (list g) childNodeName) of
       (Some node, Some childNode) \<Rightarrow>
         let l1 = modify nodeName
                    (\<lambda>n. n\<lparr>children :=
                       (case children n of
                          None \<Rightarrow> None
                        | Some cs \<Rightarrow>
                            if length (set_delete childNodeName cs) = 0 then None
                            else Some (set_delete childNodeName cs))\<rparr>)
                    (list g);
             l2 = modify childNodeName
                    (\<lambda>n. n\<lparr>parents := map_option (set_delete nodeName) (parents n)\<rparr>)
                    l1
         in if nodeName \<noteq> rootName g
            then ensureRootBinding (g\<lparr>list := l2\<rparr>) childNodeName
            else g\<lparr>list := l2\<rparr>
     | _ \<Rightarrow> g)"

text \<open>
  \<^verbatim>\<open>findLoop\<close>: a depth-first search from the proposed children along the
  stored child sets. The array \<^verbatim>\<open>dfsStack\<close> is a list whose head is the top
  (the end of the array): the initial stack is the reversed child array, and the
  children pushed in iteration order end up reversed on top. The search stops with
  \<open>True\<close> as soon as the popped node is a proposed parent.
\<close>

definition childrenOf :: "adjList \<Rightarrow> string \<Rightarrow> string list" where
  "childrenOf l k =
    (case map_of l k of None \<Rightarrow> [] | Some n \<Rightarrow> orEmpty (children n))"

definition findLoop_universe :: "adjList \<Rightarrow> string list \<Rightarrow> string set" where
  "findLoop_universe l stack =
     set stack \<union> (\<Union>(k, n) \<in> set l. set (orEmpty (children n)))"

function findLoop_while ::
  "adjList \<Rightarrow> string list \<Rightarrow> string list \<Rightarrow> string list \<Rightarrow> bool" where
  "findLoop_while l parentSet visited [] = False"
| "findLoop_while l parentSet visited (current # dfsStack) =
     (if current \<in> set parentSet then True
      else findLoop_while l parentSet (set_add current visited)
             (rev (filter (\<lambda>child. child \<notin> set (set_add current visited))
                     (childrenOf l current)) @ dfsStack))"
  by pat_completeness auto

lemma findLoop_universe_finite: "finite (findLoop_universe l stack)"
  by (auto simp: findLoop_universe_def)

lemma childrenOf_universe: "set (childrenOf l k) \<subseteq> findLoop_universe l stack"
proof
  fix c assume c: "c \<in> set (childrenOf l k)"
  then obtain n where n: "map_of l k = Some n" and cs: "c \<in> set (orEmpty (children n))"
    by (cases "map_of l k") (auto simp: childrenOf_def)
  from n have "(k, n) \<in> set l" by (rule map_of_SomeD)
  with cs show "c \<in> findLoop_universe l stack"
    by (force simp: findLoop_universe_def)
qed

lemma findLoop_universe_step:
  "findLoop_universe l (rev (filter P (childrenOf l current)) @ dfsStack)
     \<subseteq> findLoop_universe l (current # dfsStack)"
proof -
  have "set (filter P (childrenOf l current)) \<subseteq> findLoop_universe l (current # dfsStack)"
    using childrenOf_universe [of l current "current # dfsStack"] by auto
  then show ?thesis by (auto simp: findLoop_universe_def)
qed

termination findLoop_while
proof (relation "measures
    [\<lambda>(l, parentSet, visited, stack). card (findLoop_universe l stack - set visited),
     \<lambda>(l, parentSet, visited, stack). length (filter (\<lambda>x. x \<in> set visited) stack)]")
  show "wf (measures
    [\<lambda>(l, parentSet, visited, stack). card (findLoop_universe l stack - set visited),
     \<lambda>(l, parentSet, visited, stack). length (filter (\<lambda>x. x \<in> set visited) stack)])"
    by simp
next
  fix l :: adjList and parentSet visited :: "string list" and current dfsStack
  assume "current \<notin> set parentSet"
  let ?v' = "set_add current visited"
  let ?st' = "rev (filter (\<lambda>child. child \<notin> set ?v') (childrenOf l current)) @ dfsStack"
  have sub: "findLoop_universe l ?st' \<subseteq> findLoop_universe l (current # dfsStack)"
    by (rule findLoop_universe_step)
  have v': "set ?v' = insert current (set visited)"
    by (auto simp: set_add_def)
  show "((l, parentSet, ?v', ?st'), (l, parentSet, visited, current # dfsStack))
        \<in> measures
    [\<lambda>(l, parentSet, visited, stack). card (findLoop_universe l stack - set visited),
     \<lambda>(l, parentSet, visited, stack). length (filter (\<lambda>x. x \<in> set visited) stack)]"
  proof (cases "current \<in> set visited")
    case False
    have "findLoop_universe l ?st' - set ?v'
            \<subset> findLoop_universe l (current # dfsStack) - set visited"
    proof
      show "findLoop_universe l ?st' - set ?v'
              \<subseteq> findLoop_universe l (current # dfsStack) - set visited"
        using sub v' by auto
      have "current \<in> findLoop_universe l (current # dfsStack) - set visited"
        using False by (simp add: findLoop_universe_def)
      moreover have "current \<notin> findLoop_universe l ?st' - set ?v'"
        using v' by simp
      ultimately show "findLoop_universe l ?st' - set ?v'
              \<noteq> findLoop_universe l (current # dfsStack) - set visited"
        by blast
    qed
    then have "card (findLoop_universe l ?st' - set ?v')
                 < card (findLoop_universe l (current # dfsStack) - set visited)"
      by (intro psubset_card_mono finite_Diff findLoop_universe_finite)
    then show ?thesis by simp
  next
    case True
    then have eq: "?v' = visited" by (simp add: set_add_def)
    have "card (findLoop_universe l ?st' - set visited)
            \<le> card (findLoop_universe l (current # dfsStack) - set visited)"
      using sub by (intro card_mono finite_Diff findLoop_universe_finite) auto
    moreover have "length (filter (\<lambda>x. x \<in> set visited) ?st')
            < length (filter (\<lambda>x. x \<in> set visited) (current # dfsStack))"
      using True eq by (simp add: filter_empty_conv)
    ultimately show ?thesis using eq by auto
  qed
qed

definition findLoop :: "graph \<Rightarrow> string list option \<Rightarrow> string list option \<Rightarrow> bool" where
  "findLoop g ps cs =
    (case (ps, cs) of
       (Some parentsArr, Some childrenArr) \<Rightarrow>
         findLoop_while (list g) (new_Set parentsArr) [] (rev childrenArr)
     | _ \<Rightarrow> False)"

text \<open>
  \<^verbatim>\<open>runCommonValidation\<close>: the checks in the order of the source; the two
  \<^verbatim>\<open>forEach\<close> loops throw at the first offending element. The result is the
  error thrown, or \<open>None\<close> when the validation passes.
\<close>

fun validateParents :: "graph \<Rightarrow> string \<Rightarrow> string list \<Rightarrow> GraphError option" where
  "validateParents g nm [] = None"
| "validateParents g nm (parent # rest) =
     (if \<not> has (list g) parent then Some MissingParent
      else if nm = parent then Some SelfReference
      else validateParents g nm rest)"

fun validateChildren :: "graph \<Rightarrow> string \<Rightarrow> string list \<Rightarrow> GraphError option" where
  "validateChildren g nm [] = None"
| "validateChildren g nm (child # rest) =
     (if \<not> has (list g) child then Some MissingChild
      else if nm = child then Some SelfReference
      else if child = rootName g then Some RootReference
      else validateChildren g nm rest)"

definition runCommonValidation ::
  "graph \<Rightarrow> string \<Rightarrow> int \<Rightarrow> string list option \<Rightarrow> string list option \<Rightarrow> GraphError option" where
  "runCommonValidation g nm dur ps cs =
    (if length nm = 0 then Some EmptyName
     else if dur = 0 \<and> nm \<noteq> rootName g then Some ZeroDuration
     else if dur < 0 then Some NegativeDuration
     else case (case ps of None \<Rightarrow> None | Some parentsArr \<Rightarrow> validateParents g nm parentsArr) of
       Some e \<Rightarrow> Some e
     | None \<Rightarrow>
        (case (case cs of None \<Rightarrow> None | Some childrenArr \<Rightarrow> validateChildren g nm childrenArr) of
           Some e \<Rightarrow> Some e
         | None \<Rightarrow> if findLoop g ps cs then Some GraphLoop else None))"

text \<open>
  The operations return the error thrown, if any, together with the graph as it is
  when the call returns or throws.

  \<^verbatim>\<open>addNode\<close>: the arguments are the ones after the defaults have been
  applied. The capacity and the duplicate check come first, then the validation when
  \<^verbatim>\<open>validate\<close> is set. A \<^verbatim>\<open>null\<close> parent array of a node other than the
  root becomes the array holding the root. An array, also an empty one, is truthy, so a
  set is stored for it. Then the node is bound to every parent and every child.
\<close>

definition addNode ::
  "graph \<Rightarrow> string \<Rightarrow> int \<Rightarrow> string list option \<Rightarrow> string list option \<Rightarrow> Color
     \<Rightarrow> dateref option \<Rightarrow> bool \<Rightarrow> GraphError option \<times> graph" where
  "addNode g nm dur ps cs col st validate =
    (if length (list g) \<ge> MAX_NODES then (Some NodeLimitExceeded, g)
     else if has (list g) nm then (Some EntryDuplicate, g)
     else case (if validate then runCommonValidation g nm dur ps cs else None) of
       Some e \<Rightarrow> (Some e, g)
     | None \<Rightarrow>
        let ps1 = (if ps = None \<and> nm \<noteq> rootName g then Some [rootName g] else ps);
            g1 = g\<lparr>list := AList.update nm
                   \<lparr>name = nm, duration = dur,
                    parents = map_option new_Set ps1,
                    children = map_option new_Set cs,
                    color = col, start = st\<rparr> (list g)\<rparr>;
            g2 = (case ps1 of
                    None \<Rightarrow> g1
                  | Some parentsArr \<Rightarrow> fold (\<lambda>parent h. bindChildNode h nm parent) parentsArr g1);
            g3 = (case cs of
                    None \<Rightarrow> g2
                  | Some childrenArr \<Rightarrow> fold (\<lambda>child h. bindChildNode h child nm) childrenArr g2)
        in (None, g3))"

text \<open>
  \<^verbatim>\<open>removeNode\<close>: the parent and child arrays are copies taken before the
  loops. The node is unbound from each parent; each child is unbound from the node and,
  unless the removal is part of an update, bound to every former parent. Then the node
  is deleted and struck from the root's child set, when the root has one.
\<close>

definition removeNode :: "graph \<Rightarrow> string \<Rightarrow> bool \<Rightarrow> GraphError option \<times> graph" where
  "removeNode g nm isUpdate =
    (if nm = rootName g then (Some RootRemoval, g)
     else if \<not> has (list g) nm then (Some MissingEntry, g)
     else case map_of (list g) nm of
       None \<Rightarrow> (Some MissingEntry, g)
     | Some node \<Rightarrow>
        let parentsArr = orEmpty (parents node);
            childrenArr = orEmpty (children node);
            g1 = fold (\<lambda>parent h. unbindChildNode h nm parent) parentsArr g;
            g2 = fold (\<lambda>child h.
                         let h1 = unbindChildNode h child nm
                         in if \<not> isUpdate
                            then fold (\<lambda>parent k. bindChildNode k child parent) parentsArr h1
                            else h1) childrenArr g1;
            g3 = g2\<lparr>list := AList.delete nm (list g2)\<rparr>;
            g4 = (case map_of (list g3) (rootName g3) of
                    None \<Rightarrow> g3
                  | Some rootNode \<Rightarrow>
                      (case children rootNode of
                         None \<Rightarrow> g3
                       | Some cs \<Rightarrow>
                           g3\<lparr>list := modify (rootName g3)
                                 (\<lambda>n. n\<lparr>children := map_option (set_delete nm) (children n)\<rparr>)
                                 (list g3)\<rparr>))
        in (None, g4))"

text \<open>
  \<^verbatim>\<open>updateNode\<close>: an omitted argument (\<^verbatim>\<open>undefined\<close>) is \<open>None\<close> and
  takes the default of the signature: the old name, the node's duration (0 without a
  node), copies of the node's parent and child sets (empty arrays for \<^verbatim>\<open>null\<close>),
  the default colour of the graph, and the node's start. After the checks and the
  validation, empty parent and child arrays become \<^verbatim>\<open>null\<close>, the node is removed
  as part of an update and added again without validation. An error thrown by either
  call leaves the graph as that call left it.
\<close>

definition updateNode ::
  "graph \<Rightarrow> string \<Rightarrow> string option \<Rightarrow> int option \<Rightarrow> string list option option
     \<Rightarrow> string list option option \<Rightarrow> Color option \<Rightarrow> dateref option option
     \<Rightarrow> GraphError option \<times> graph" where
  "updateNode g nm newNameArg durationArg parentsArg childrenArg colorArg startArg =
    (let node = map_of (list g) nm;
         newName = (case newNameArg of None \<Rightarrow> nm | Some v \<Rightarrow> v);
         dur = (case durationArg of
                  None \<Rightarrow> (case node of None \<Rightarrow> 0 | Some n \<Rightarrow> duration n)
                | Some v \<Rightarrow> v);
         ps = (case parentsArg of
                 None \<Rightarrow> Some (case node of None \<Rightarrow> [] | Some n \<Rightarrow> orEmpty (parents n))
               | Some v \<Rightarrow> v);
         cs = (case childrenArg of
                 None \<Rightarrow> Some (case node of None \<Rightarrow> [] | Some n \<Rightarrow> orEmpty (children n))
               | Some v \<Rightarrow> v);
         col = (case colorArg of None \<Rightarrow> defaultColor g | Some v \<Rightarrow> v);
         st = (case startArg of
                 None \<Rightarrow> (case node of None \<Rightarrow> None | Some n \<Rightarrow> start n)
               | Some v \<Rightarrow> v)
     in if nm = rootName g then (Some RootChange, g)
        else if has (list g) newName \<and> newName \<noteq> nm then (Some EntryDuplicate, g)
        else if \<not> has (list g) nm then (Some MissingEntry, g)
        else case runCommonValidation g nm dur ps cs of
          Some e \<Rightarrow> (Some e, g)
        | None \<Rightarrow>
           let ps1 = (if ps = Some [] then None else ps);
               cs1 = (if cs = Some [] then None else cs);
               removed = removeNode g nm True
           in case fst removed of
                Some e \<Rightarrow> (Some e, snd removed)
              | None \<Rightarrow> addNode (snd removed) newName dur ps1 cs1 col st False)"

text \<open>
  The constructor: an empty node collection, the first colour as default, the given
  start date and root name, and then \<^verbatim>\<open>addNode()\<close> with all its defaults, which
  creates the root node. The root name is the constant generated once by
  \<^verbatim>\<open>generateSecureRootName\<close>; it is a parameter here.
\<close>

definition new_AdjacencyList :: "string \<Rightarrow> string \<Rightarrow> dateref \<Rightarrow> GraphError option \<times> graph" where
  "new_AdjacencyList root i initialStartDate =
    (let g = \<lparr>ident = i, list = [], defaultColor = Color1,
              startDate = initialStartDate, rootName = root\<rparr>
     in addNode g (rootName g) 0 None None (defaultColor g) None True)"

section \<open>Example graphs\<close>

text \<open>
  A graph with the root name \<open>root\<close>, and the graphs after adding the task
  \<open>A\<close>, then \<open>B\<close> with the parent \<open>A\<close>, then \<open>C\<close> with the parents
  \<open>A\<close> and \<open>B\<close>. They serve as concrete inputs.
\<close>

definition graph0 :: graph where
  "graph0 = snd (new_AdjacencyList ''root'' ''g'' 0)"

definition graph1 :: graph where
  "graph1 = snd (addNode graph0 ''A'' 5 None None Color1 None True)"

definition graph2 :: graph where
  "graph2 = snd (addNode graph1 ''B'' 3 (Some [''A'']) None Color2 None True)"

definition graph3 :: graph where
  "graph3 = snd (addNode graph2 ''C'' 2 (Some [''A'', ''B'']) None Color2 None True)"

text \<open>A graph that holds exactly 10,000 nodes.\<close>

fun grow :: "nat \<Rightarrow> graph" where
  "grow 0 = graph0"
| "grow (Suc n) =
     snd (addNode (grow n) (replicate (Suc n) (CHR ''a'')) 1 None None Color1 None True)"

section \<open>Inserts are all-or-nothing\<close>

text \<open>
  C8. Whenever \<^verbatim>\<open>addNode\<close>, called with validation enabled, throws an error, the
  graph after the call is the graph before it: every \<^verbatim>\<open>throw\<close> (capacity,
  duplicate name, and each failure of the common validation) comes before the first
  write to the node collection.
\<close>

theorem addNode_error_leaves_graph:
  "addNode g nm dur ps cs col st True = (Some e, g') \<Longrightarrow> g' = g"
  by (auto simp: addNode_def Let_def split: if_splits option.splits)

theorem addNode_error_leaves_graph_witness:
  "addNode graph0 [] 3 None None Color1 None True = (Some EmptyName, graph0)"
proof -
  have "fst (addNode graph0 [] 3 None None Color1 None True) = Some EmptyName"
    by code_simp
  then obtain g' where r: "addNode graph0 [] 3 None None Color1 None True = (Some EmptyName, g')"
    by (cases "addNode graph0 [] 3 None None Color1 None True") simp
  from addNode_error_leaves_graph [OF r] r show ?thesis by simp
qed

section \<open>The edge relations and the effect of the primitives\<close>

text \<open>
  The parent edges \<open>Ep\<close> are the pairs (parent, node) read from the parent sets, the
  child edges \<open>Ec\<close> the pairs (node, child) read from the child sets.
\<close>

definition parentsOf :: "adjList \<Rightarrow> string \<Rightarrow> string list" where
  "parentsOf l k = (case map_of l k of None \<Rightarrow> [] | Some n \<Rightarrow> orEmpty (parents n))"

definition Ep :: "adjList \<Rightarrow> (string \<times> string) set" where
  "Ep l = {(p, k). p \<in> set (parentsOf l k)}"

definition Ec :: "adjList \<Rightarrow> (string \<times> string) set" where
  "Ec l = {(k, c). c \<in> set (childrenOf l k)}"

lemma map_of_modify:
  "map_of (modify k f l) k' = (if k' = k then map_option f (map_of l k') else map_of l k')"
  by (induction l) (auto simp: modify_def)

lemma length_modify: "length (modify k f l) = length l"
  by (simp add: modify_def)

lemma keys_modify: "map fst (modify k f l) = map fst l"
  by (induction l) (auto simp: modify_def)

lemma set_set_add: "set (set_add x s) = insert x (set s)"
  by (auto simp: set_add_def)

lemma set_set_delete: "set (set_delete x s) = set s - {x}"
  by (auto simp: set_delete_def)

lemma set_new_Set: "set (new_Set xs) = set xs"
proof -
  have "set (fold set_add xs acc) = set xs \<union> set acc" for acc
    by (induction xs arbitrary: acc) (auto simp: set_set_add)
  then show ?thesis by (simp add: new_Set_def)
qed

lemma orEmpty_simps: "orEmpty None = []" "orEmpty (Some xs) = xs"
  by (simp_all add: orEmpty_def)

lemma set_orEmpty_delete:
  "set (orEmpty (map_option (set_delete x) s)) = set (orEmpty s) - {x}"
  by (cases s) (simp_all add: orEmpty_simps set_set_delete)

lemma set_orEmpty_delete_null:
  "set (orEmpty (case s of None \<Rightarrow> None
                 | Some cs \<Rightarrow> if length (set_delete x cs) = 0 then None else Some (set_delete x cs)))
     = set (orEmpty s) - {x}"
proof (cases s)
  case None
  then show ?thesis by (simp add: orEmpty_simps)
next
  case (Some cs)
  show ?thesis
  proof (cases "set_delete x cs = []")
    case True
    then have "set cs - {x} = {}"
      using set_set_delete [of x cs] by simp
    with Some True show ?thesis by (simp add: orEmpty_simps)
  next
    case False
    with Some show ?thesis by (simp add: orEmpty_simps set_set_delete)
  qed
qed

lemma parentsOf_modify:
  "parentsOf (modify k f l) k' =
     (if k' = k then (case map_of l k of None \<Rightarrow> [] | Some n \<Rightarrow> orEmpty (parents (f n)))
      else parentsOf l k')"
  by (cases "map_of l k") (simp_all add: parentsOf_def map_of_modify)

lemma childrenOf_modify:
  "childrenOf (modify k f l) k' =
     (if k' = k then (case map_of l k of None \<Rightarrow> [] | Some n \<Rightarrow> orEmpty (children (f n)))
      else childrenOf l k')"
  by (cases "map_of l k") (simp_all add: childrenOf_def map_of_modify)

lemma in_Ep: "(p, k) \<in> Ep l \<longleftrightarrow> p \<in> set (parentsOf l k)"
  by (simp add: Ep_def)

lemma in_Ec: "(k, c) \<in> Ec l \<longleftrightarrow> c \<in> set (childrenOf l k)"
  by (simp add: Ec_def)

lemma parentsOf_Some: "map_of l k = Some n \<Longrightarrow> parentsOf l k = orEmpty (parents n)"
  by (simp add: parentsOf_def)

lemma childrenOf_Some: "map_of l k = Some n \<Longrightarrow> childrenOf l k = orEmpty (children n)"
  by (simp add: childrenOf_def)

lemma parentsOf_None: "map_of l k = None \<Longrightarrow> parentsOf l k = []"
  by (simp add: parentsOf_def)

lemma childrenOf_None: "map_of l k = None \<Longrightarrow> childrenOf l k = []"
  by (simp add: childrenOf_def)

text \<open>The field writes of the primitives, as operations on the two edge sets.\<close>

lemma Ep_delete_parent:
  "Ep (modify k (\<lambda>n. n\<lparr>parents := map_option (set_delete x) (parents n)\<rparr>) l) = Ep l - {(x, k)}"
proof -
  have "(a, b) \<in> Ep (modify k (\<lambda>n. n\<lparr>parents := map_option (set_delete x) (parents n)\<rparr>) l)
          \<longleftrightarrow> (a, b) \<in> Ep l - {(x, k)}" for a b
    by (cases "b = k"; cases "map_of l k")
       (simp_all add: in_Ep parentsOf_modify parentsOf_Some parentsOf_None set_orEmpty_delete)
  then show ?thesis by auto
qed

lemma Ec_delete_child:
  "Ec (modify k (\<lambda>n. n\<lparr>children := map_option (set_delete x) (children n)\<rparr>) l) = Ec l - {(k, x)}"
proof -
  have "(a, b) \<in> Ec (modify k (\<lambda>n. n\<lparr>children := map_option (set_delete x) (children n)\<rparr>) l)
          \<longleftrightarrow> (a, b) \<in> Ec l - {(k, x)}" for a b
    by (cases "a = k"; cases "map_of l k")
       (simp_all add: in_Ec childrenOf_modify childrenOf_Some childrenOf_None set_orEmpty_delete)
  then show ?thesis by auto
qed

lemma Ec_delete_child_null:
  "Ec (modify k (\<lambda>n. n\<lparr>children :=
                       (case children n of
                          None \<Rightarrow> None
                        | Some cs \<Rightarrow>
                            if length (set_delete x cs) = 0 then None
                            else Some (set_delete x cs))\<rparr>) l) = Ec l - {(k, x)}"
proof -
  have "(a, b) \<in> Ec (modify k (\<lambda>n. n\<lparr>children :=
                       (case children n of
                          None \<Rightarrow> None
                        | Some cs \<Rightarrow>
                            if length (set_delete x cs) = 0 then None
                            else Some (set_delete x cs))\<rparr>) l)
          \<longleftrightarrow> (a, b) \<in> Ec l - {(k, x)}" for a b
    by (cases "a = k"; cases "map_of l k")
       (simp_all add: in_Ec childrenOf_modify childrenOf_Some childrenOf_None
          set_orEmpty_delete_null del: length_0_conv)
  then show ?thesis by auto
qed

lemma Ep_add_parent:
  assumes "map_of l k = Some n"
  shows "Ep (modify k (\<lambda>n. n\<lparr>parents := Some (set_add x (orEmpty (parents n)))\<rparr>) l) = insert (x, k) (Ep l)"
proof -
  have "(a, b) \<in> Ep (modify k (\<lambda>n. n\<lparr>parents := Some (set_add x (orEmpty (parents n)))\<rparr>) l)
          \<longleftrightarrow> (a, b) \<in> insert (x, k) (Ep l)" for a b
    using assms by (cases "b = k") (auto simp: in_Ep parentsOf_modify parentsOf_Some orEmpty_simps set_set_add)
  then show ?thesis by auto
qed

lemma Ep_add_parent_present:
  assumes "map_of l k = Some n" "parents n = Some ps"
  shows "Ep (modify k (\<lambda>n. n\<lparr>parents := map_option (set_add x) (parents n)\<rparr>) l) = insert (x, k) (Ep l)"
proof -
  have "(a, b) \<in> Ep (modify k (\<lambda>n. n\<lparr>parents := map_option (set_add x) (parents n)\<rparr>) l)
          \<longleftrightarrow> (a, b) \<in> insert (x, k) (Ep l)" for a b
    using assms by (cases "b = k") (auto simp: in_Ep parentsOf_modify parentsOf_Some orEmpty_simps set_set_add)
  then show ?thesis by auto
qed

lemma Ec_add_child:
  assumes "map_of l k = Some n"
  shows "Ec (modify k (\<lambda>n. n\<lparr>children := Some (set_add x (orEmpty (children n)))\<rparr>) l) = insert (k, x) (Ec l)"
proof -
  have "(a, b) \<in> Ec (modify k (\<lambda>n. n\<lparr>children := Some (set_add x (orEmpty (children n)))\<rparr>) l)
          \<longleftrightarrow> (a, b) \<in> insert (k, x) (Ec l)" for a b
    using assms by (cases "a = k") (auto simp: in_Ec childrenOf_modify childrenOf_Some orEmpty_simps set_set_add)
  then show ?thesis by auto
qed

lemma Ec_parents_write:
  "Ec (modify k (\<lambda>n. n\<lparr>parents := h n\<rparr>) l) = Ec l"
proof -
  have "(a, b) \<in> Ec (modify k (\<lambda>n. n\<lparr>parents := h n\<rparr>) l) \<longleftrightarrow> (a, b) \<in> Ec l" for a b
    by (cases "a = k"; cases "map_of l k")
       (simp_all add: in_Ec childrenOf_modify childrenOf_Some childrenOf_None)
  then show ?thesis by auto
qed

lemma Ep_children_write:
  "Ep (modify k (\<lambda>n. n\<lparr>children := h n\<rparr>) l) = Ep l"
proof -
  have "(a, b) \<in> Ep (modify k (\<lambda>n. n\<lparr>children := h n\<rparr>) l) \<longleftrightarrow> (a, b) \<in> Ep l" for a b
    by (cases "b = k"; cases "map_of l k")
       (simp_all add: in_Ep parentsOf_modify parentsOf_Some parentsOf_None)
  then show ?thesis by auto
qed

text \<open>
  A primitive acts on the parent edges and on the child edges by the same function
  \<open>f\<close>, and leaves the keys and the root name alone.
\<close>

definition acts :: "graph \<Rightarrow> graph \<Rightarrow> ((string \<times> string) set \<Rightarrow> (string \<times> string) set) \<Rightarrow> bool" where
  "acts g g' f \<longleftrightarrow>
     Ep (list g') = f (Ep (list g)) \<and> Ec (list g') = f (Ec (list g)) \<and>
     map fst (list g') = map fst (list g) \<and> rootName g' = rootName g"

lemma acts_id: "acts g g (\<lambda>S. S)"
  by (simp add: acts_def)

lemma acts_trans: "acts g g' f \<Longrightarrow> acts g' g'' h \<Longrightarrow> acts g g'' (\<lambda>S. h (f S))"
  by (simp add: acts_def)

lemma unroot_acts:
  "acts g (g\<lparr>list := modify (rootName g)
                    (\<lambda>n. n\<lparr>children := map_option (set_delete c) (children n)\<rparr>)
                    (modify c
                      (\<lambda>n. n\<lparr>parents := map_option (set_delete (rootName g)) (parents n)\<rparr>)
                      (list g))\<rparr>) (\<lambda>S. S - {(rootName g, c)})"
  by (simp add: acts_def Ep_children_write Ep_delete_parent Ec_delete_child Ec_parents_write
        keys_modify)

lemma reroot_acts:
  assumes "map_of (list g) c = Some n" "parents n = Some ps"
    and "map_of (list g) (rootName g) = Some r"
  shows "acts g (g\<lparr>list := modify (rootName g)
                         (\<lambda>n. n\<lparr>children := Some (set_add c (orEmpty (children n)))\<rparr>)
                         (modify c
                           (\<lambda>n. n\<lparr>parents := map_option (set_add (rootName g)) (parents n)\<rparr>)
                           (list g))\<rparr>) (insert (rootName g, c))"
proof -
  let ?l1 = "modify c (\<lambda>n. n\<lparr>parents := map_option (set_add (rootName g)) (parents n)\<rparr>) (list g)"
  have "map_of ?l1 (rootName g) \<noteq> None"
    using assms(3) by (auto simp: map_of_modify)
  then obtain r1 where r1: "map_of ?l1 (rootName g) = Some r1" by blast
  show ?thesis
    unfolding acts_def
    by (simp add: Ep_children_write Ep_add_parent_present [OF assms(1,2)]
          Ec_add_child [OF r1] Ec_parents_write keys_modify)
qed

lemma ensureRootBinding_acts:
  "\<exists>f. acts g (ensureRootBinding g c) f \<and>
       (f = (\<lambda>S. S) \<or> f = (\<lambda>S. S - {(rootName g, c)}) \<or>
        (f = insert (rootName g, c) \<and> c \<noteq> rootName g))"
proof (cases "c = rootName g")
  case True
  then show ?thesis by (auto simp: ensureRootBinding_def intro: acts_id)
next
  case cr: False
  show ?thesis
  proof (cases "map_of (list g) c")
    case None
    then show ?thesis using cr by (auto simp: ensureRootBinding_def intro: acts_id)
  next
    case (Some node)
    show ?thesis
    proof (cases "map_of (list g) (rootName g)")
      case None
      then show ?thesis using cr Some by (auto simp: ensureRootBinding_def intro: acts_id)
    next
      case rt: (Some rootNode)
      show ?thesis
      proof (cases "parents node")
        case None
        then have "ensureRootBinding g c = g"
          using cr Some rt by (simp add: ensureRootBinding_def)
        then show ?thesis by (auto intro: acts_id)
      next
        case ps: (Some ps)
        let ?g1 = "g\<lparr>list := modify (rootName g)
                    (\<lambda>n. n\<lparr>children := map_option (set_delete c) (children n)\<rparr>)
                    (modify c
                      (\<lambda>n. n\<lparr>parents := map_option (set_delete (rootName g)) (parents n)\<rparr>)
                      (list g))\<rparr>"
        show ?thesis
        proof (cases "length ps > 1")
          case long: True
          have a1: "acts g ?g1 (\<lambda>S. S - {(rootName g, c)})" by (rule unroot_acts)
          have n1: "map_of (list ?g1) c = Some (node\<lparr>parents := Some (set_delete (rootName g) ps)\<rparr>)"
            using cr Some ps by (simp add: map_of_modify)
          have r1: "map_of (list ?g1) (rootName ?g1) \<noteq> None"
            using cr rt by (simp add: map_of_modify)
          show ?thesis
          proof (cases "length (set_delete (rootName g) ps) = 0")
            case True
            let ?g2 = "?g1\<lparr>list := modify (rootName ?g1)
                         (\<lambda>n. n\<lparr>children := Some (set_add c (orEmpty (children n)))\<rparr>)
                         (modify c
                           (\<lambda>n. n\<lparr>parents := map_option (set_add (rootName ?g1)) (parents n)\<rparr>)
                           (list ?g1))\<rparr>"
            from r1 obtain r where "map_of (list ?g1) (rootName ?g1) = Some r" by blast
            then have a2: "acts ?g1 ?g2 (insert (rootName ?g1, c))"
              using n1 by (intro reroot_acts [where n = "node\<lparr>parents := Some (set_delete (rootName g) ps)\<rparr>"]) simp_all
            have eq: "ensureRootBinding g c = ?g2"
              using cr Some rt ps long True n1
              by (simp add: ensureRootBinding_def Let_def)
            have "acts g ?g2 (\<lambda>S. insert (rootName g, c) (S - {(rootName g, c)}))"
              using acts_trans [OF a1 a2] by simp
            moreover have "(\<lambda>S. insert (rootName g, c) (S - {(rootName g, c)})) = insert (rootName g, c)"
              by auto
            ultimately show ?thesis using eq cr by auto
          next
            case False
            have eq: "ensureRootBinding g c = ?g1"
              using cr Some rt ps long False n1
              by (simp add: ensureRootBinding_def Let_def)
            show ?thesis using a1 eq by auto
          qed
        next
          case short: False
          show ?thesis
          proof (cases "length ps = 0")
            case True
            let ?g2 = "g\<lparr>list := modify (rootName g)
                         (\<lambda>n. n\<lparr>children := Some (set_add c (orEmpty (children n)))\<rparr>)
                         (modify c
                           (\<lambda>n. n\<lparr>parents := map_option (set_add (rootName g)) (parents n)\<rparr>)
                           (list g))\<rparr>"
            have a2: "acts g ?g2 (insert (rootName g, c))"
              using Some ps rt by (rule reroot_acts)
            have eq: "ensureRootBinding g c = ?g2"
              using cr Some rt ps short True
              by (simp add: ensureRootBinding_def Let_def)
            show ?thesis using a2 eq cr by auto
          next
            case False
            have "ensureRootBinding g c = g"
              using cr Some rt ps short False
              by (simp add: ensureRootBinding_def Let_def)
            then show ?thesis by (auto intro: acts_id)
          qed
        qed
      qed
    qed
  qed
qed

definition Rt :: "string \<Rightarrow> (string \<times> string) set" where
  "Rt r = {(a, b). a = r \<and> b \<noteq> r}"

definition sd :: "'a set \<Rightarrow> 'a set \<Rightarrow> 'a set" where
  "sd A B = (A - B) \<union> (B - A)"

lemma sd_empty_iff: "sd A B = {} \<longleftrightarrow> A = B"
  by (auto simp: sd_def)

definition present :: "graph \<Rightarrow> string \<Rightarrow> bool" where
  "present g k = has (list g) k"

lemma present_keys: "present g k \<longleftrightarrow> k \<in> set (map fst (list g))"
  by (simp add: present_def has_def map_of_eq_None_iff)

lemma acts_present: "acts g g' f \<Longrightarrow> present g' k = present g k"
  by (simp add: acts_def present_keys)

lemma ensureRootBinding_summary:
  obtains f where "acts g (ensureRootBinding g c) f"
    and "\<And>S. f S \<subseteq> S \<union> Rt (rootName g)"
    and "\<And>X Y. sd (f X) (f Y) \<subseteq> sd X Y"
proof -
  obtain f where a: "acts g (ensureRootBinding g c) f"
    and f: "f = (\<lambda>S. S) \<or> f = (\<lambda>S. S - {(rootName g, c)}) \<or>
        (f = insert (rootName g, c) \<and> c \<noteq> rootName g)"
    using ensureRootBinding_acts by blast
  have "f S \<subseteq> S \<union> Rt (rootName g)" for S
    using f by (auto simp: Rt_def)
  moreover have "sd (f X) (f Y) \<subseteq> sd X Y" for X Y
    using f by (auto simp: sd_def)
  ultimately show thesis using a that by blast
qed

lemma bindChildNode_absent:
  "\<not> present g n \<or> \<not> present g c \<Longrightarrow> bindChildNode g c n = g"
  by (auto simp: bindChildNode_def present_def has_def split: option.splits)

lemma unbindChildNode_absent:
  "\<not> present g n \<or> \<not> present g c \<Longrightarrow> unbindChildNode g c n = g"
  by (auto simp: unbindChildNode_def present_def has_def split: option.splits)

lemma bindChildNode_summary:
  assumes "present g n" "present g c"
  obtains f where "acts g (bindChildNode g c n) f"
    and "\<And>S. f S \<subseteq> insert (n, c) S \<union> Rt (rootName g)"
    and "\<And>X Y. sd (f X) (f Y) \<subseteq> sd X Y - {(n, c)}"
proof -
  from assms obtain node childNode where n: "map_of (list g) n = Some node"
    and c: "map_of (list g) c = Some childNode"
    by (auto simp: present_def has_def)
  let ?l1 = "modify n (\<lambda>x. x\<lparr>children := Some (set_add c (orEmpty (children x)))\<rparr>) (list g)"
  let ?g2 = "g\<lparr>list := modify c (\<lambda>x. x\<lparr>parents := Some (set_add n (orEmpty (parents x)))\<rparr>) ?l1\<rparr>"
  have c1: "map_of ?l1 c \<noteq> None" using c by (auto simp: map_of_modify)
  then obtain c' where c': "map_of ?l1 c = Some c'" by blast
  have a1: "acts g ?g2 (insert (n, c))"
    unfolding acts_def
    by (simp add: Ep_add_parent [OF c'] Ep_children_write Ec_parents_write Ec_add_child [OF n]
          keys_modify)
  have eq: "bindChildNode g c n = ensureRootBinding ?g2 c"
    using n c by (simp add: bindChildNode_def Let_def)
  obtain e where a2: "acts ?g2 (ensureRootBinding ?g2 c) e"
    and e1: "\<And>S. e S \<subseteq> S \<union> Rt (rootName ?g2)"
    and e2: "\<And>X Y. sd (e X) (e Y) \<subseteq> sd X Y"
    by (rule ensureRootBinding_summary [of ?g2 c]) blast
  have "acts g (bindChildNode g c n) (\<lambda>S. e (insert (n, c) S))"
    using acts_trans [OF a1 a2] eq by simp
  moreover have "e (insert (n, c) S) \<subseteq> insert (n, c) S \<union> Rt (rootName g)" for S
    using e1 [of "insert (n, c) S"] by simp
  moreover have "sd (e (insert (n, c) X)) (e (insert (n, c) Y)) \<subseteq> sd X Y - {(n, c)}" for X Y
    using e2 [of "insert (n, c) X" "insert (n, c) Y"] by (auto simp: sd_def)
  ultimately show thesis using that by blast
qed

lemma unbindChildNode_summary:
  assumes "present g n" "present g c"
  obtains f where "acts g (unbindChildNode g c n) f"
    and "\<And>S. f S \<subseteq> (S - {(n, c)}) \<union> Rt (rootName g)"
    and "\<And>X Y. sd (f X) (f Y) \<subseteq> sd X Y"
proof -
  from assms obtain node childNode where n: "map_of (list g) n = Some node"
    and c: "map_of (list g) c = Some childNode"
    by (auto simp: present_def has_def)
  let ?l1 = "modify n (\<lambda>x. x\<lparr>children :=
                       (case children x of
                          None \<Rightarrow> None
                        | Some cs \<Rightarrow>
                            if length (set_delete c cs) = 0 then None
                            else Some (set_delete c cs))\<rparr>) (list g)"
  let ?g2 = "g\<lparr>list := modify c (\<lambda>x. x\<lparr>parents := map_option (set_delete n) (parents x)\<rparr>) ?l1\<rparr>"
  have a1: "acts g ?g2 (\<lambda>S. S - {(n, c)})"
    unfolding acts_def
    by (simp add: Ep_delete_parent Ep_children_write Ec_parents_write Ec_delete_child_null
          keys_modify del: length_0_conv)
  have eq: "unbindChildNode g c n = (if n \<noteq> rootName g then ensureRootBinding ?g2 c else ?g2)"
    using n c by (simp add: unbindChildNode_def Let_def del: length_0_conv)
  show thesis
  proof (cases "n = rootName g")
    case True
    then have "acts g (unbindChildNode g c n) (\<lambda>S. S - {(n, c)})"
      using a1 eq by simp
    moreover have "S - {(n, c)} \<subseteq> (S - {(n, c)}) \<union> Rt (rootName g)" for S :: "(string \<times> string) set"
      by simp
    moreover have "sd (X - {(n, c)}) (Y - {(n, c)}) \<subseteq> sd X Y" for X Y :: "(string \<times> string) set"
      by (auto simp: sd_def)
    ultimately show thesis using that [of "\<lambda>S. S - {(n, c)}"] by blast
  next
    case False
    obtain e where a2: "acts ?g2 (ensureRootBinding ?g2 c) e"
      and e1: "\<And>S. e S \<subseteq> S \<union> Rt (rootName ?g2)"
      and e2: "\<And>X Y. sd (e X) (e Y) \<subseteq> sd X Y"
      by (rule ensureRootBinding_summary [of ?g2 c]) blast
    have "acts g (unbindChildNode g c n) (\<lambda>S. e (S - {(n, c)}))"
      using acts_trans [OF a1 a2] eq False by simp
    moreover have "e (S - {(n, c)}) \<subseteq> (S - {(n, c)}) \<union> Rt (rootName g)" for S
      using e1 [of "S - {(n, c)}"] by simp
    moreover have "sd (e (X - {(n, c)})) (e (Y - {(n, c)})) \<subseteq> sd X Y" for X Y
      using e2 [of "X - {(n, c)}" "Y - {(n, c)}"] by (auto simp: sd_def)
    ultimately show thesis using that by blast
  qed
qed

section \<open>Acyclic relations\<close>

lemma trancl_root_edges:
  assumes noin: "\<And>a. (a, r) \<notin> F"
    and ab: "(a, b) \<in> (F \<union> Rt r)\<^sup>+"
  shows "b \<noteq> r \<and> ((a, b) \<in> F\<^sup>+ \<or> a = r)"
  using ab
proof (induction rule: trancl_induct)
  case (base y)
  then show ?case using noin by (auto simp: Rt_def)
next
  case (step y z)
  from step.IH have "y \<noteq> r" by simp
  with step.hyps(2) have yz: "(y, z) \<in> F" by (auto simp: Rt_def)
  then have "z \<noteq> r" using noin by auto
  moreover have "(a, z) \<in> F\<^sup>+ \<or> a = r"
    using step.IH yz by (auto intro: trancl_into_trancl)
  ultimately show ?case by simp
qed

lemma acyclic_root_edges:
  assumes "acyclic F" and noin: "\<And>a. (a, r) \<notin> F" and sub: "E' \<subseteq> F \<union> Rt r"
  shows "acyclic E' \<and> (\<forall>a. (a, r) \<notin> E')"
proof -
  have "acyclic (F \<union> Rt r)"
    unfolding acyclic_def
  proof (intro allI notI)
    fix x assume "(x, x) \<in> (F \<union> Rt r)\<^sup>+"
    from trancl_root_edges [OF noin this] have "x \<noteq> r" "(x, x) \<in> F\<^sup>+ \<or> x = r" by auto
    with \<open>acyclic F\<close> show False by (auto simp: acyclic_def)
  qed
  then have "acyclic E'" using sub by (rule acyclic_subset)
  moreover have "(a, r) \<notin> E'" for a
    using sub noin by (auto simp: Rt_def)
  ultimately show ?thesis by simp
qed

lemma acyclic_trancl: "acyclic F \<Longrightarrow> acyclic (F\<^sup>+)"
  by (simp add: acyclic_def)

lemma no_in_trancl: "(\<And>a. (a, r) \<notin> F) \<Longrightarrow> (a, r) \<notin> F\<^sup>+"
  by (auto elim: tranclE)

lemma no_in_rtrancl: "(\<And>a. (a, r) \<notin> F) \<Longrightarrow> (a, r) \<in> F\<^sup>* \<Longrightarrow> a = r"
  by (auto elim: rtranclE)

text \<open>A fresh node with edges from \<open>P\<close> and edges to \<open>C\<close>.\<close>

lemma trancl_fresh_node:
  assumes iso: "\<And>a. (a, N) \<notin> E \<and> (N, a) \<notin> E"
    and nopath: "\<And>c p. c \<in> C \<Longrightarrow> p \<in> P \<Longrightarrow> (c, p) \<notin> E\<^sup>*"
    and NP: "N \<notin> P" and NC: "N \<notin> C"
    and ab: "(a, b) \<in> (E \<union> P \<times> {N} \<union> {N} \<times> C)\<^sup>+"
  shows "(a \<noteq> N \<and> b \<noteq> N \<and> (a, b) \<in> E\<^sup>+) \<or>
         (a \<noteq> N \<and> b = N \<and> (\<exists>p\<in>P. (a, p) \<in> E\<^sup>*)) \<or>
         (a = N \<and> b \<noteq> N \<and> (\<exists>c\<in>C. (c, b) \<in> E\<^sup>*)) \<or>
         (a \<noteq> N \<and> b \<noteq> N \<and> (\<exists>p\<in>P. \<exists>c\<in>C. (a, p) \<in> E\<^sup>* \<and> (c, b) \<in> E\<^sup>*))"
  using ab
proof (induction rule: trancl_induct)
  case (base y)
  then show ?case using iso NP NC by auto
next
  case (step y z)
  have isoT: "(u, v) \<in> E \<Longrightarrow> u \<noteq> N \<and> v \<noteq> N" for u v using iso by auto
  from step.hyps(2) consider (E) "(y, z) \<in> E" | (inn) "y \<in> P" "z = N" | (out) "y = N" "z \<in> C"
    by auto
  then show ?case
  proof cases
    case E
    then have yz: "y \<noteq> N" "z \<noteq> N" using isoT by auto
    from step.IH yz E show ?thesis
      by (auto intro: trancl_into_trancl rtrancl_into_rtrancl)
  next
    case inn
    then have yN: "y \<noteq> N" using NP by auto
    from step.IH yN inn nopath show ?thesis
      by (auto dest: trancl_into_rtrancl)
  next
    case out
    from step.IH out NC show ?thesis by auto
  qed
qed

lemma acyclic_fresh_node:
  assumes "acyclic E"
    and iso: "\<And>a. (a, N) \<notin> E \<and> (N, a) \<notin> E"
    and nopath: "\<And>c p. c \<in> C \<Longrightarrow> p \<in> P \<Longrightarrow> (c, p) \<notin> E\<^sup>*"
    and NP: "N \<notin> P" and NC: "N \<notin> C"
  shows "acyclic (E \<union> P \<times> {N} \<union> {N} \<times> C)"
  unfolding acyclic_def
proof (intro allI notI)
  fix x assume "(x, x) \<in> (E \<union> P \<times> {N} \<union> {N} \<times> C)\<^sup>+"
  from trancl_fresh_node [OF iso nopath NP NC this]
  have "(x, x) \<in> E\<^sup>+ \<or> (\<exists>p\<in>P. \<exists>c\<in>C. (x, p) \<in> E\<^sup>* \<and> (c, x) \<in> E\<^sup>*)"
    by auto
  then show False
  proof
    assume "(x, x) \<in> E\<^sup>+"
    with \<open>acyclic E\<close> show False by (simp add: acyclic_def)
  next
    assume "\<exists>p\<in>P. \<exists>c\<in>C. (x, p) \<in> E\<^sup>* \<and> (c, x) \<in> E\<^sup>*"
    then obtain p c where "p \<in> P" "c \<in> C" "(c, x) \<in> E\<^sup>*" "(x, p) \<in> E\<^sup>*" by blast
    then have "(c, p) \<in> E\<^sup>*" by (meson rtrancl_trans)
    with nopath \<open>p \<in> P\<close> \<open>c \<in> C\<close> show False by blast
  qed
qed

section \<open>The loop search is sound\<close>

lemma findLoop_while_sound:
  assumes "\<not> findLoop_while l parentSet visited stack"
    and "\<And>v. v \<in> set visited \<Longrightarrow>
           v \<notin> set parentSet \<and> set (childrenOf l v) \<subseteq> set visited \<union> set stack"
    and "x \<in> set visited \<union> set stack" "p \<in> set parentSet"
  shows "(x, p) \<notin> (Ec l)\<^sup>*"
  using assms
proof (induction l parentSet visited stack arbitrary: x rule: findLoop_while.induct)
  case (1 l parentSet visited)
  have closed: "y \<in> set visited" if "(x, y) \<in> (Ec l)\<^sup>*" for y
    using that
  proof (induction rule: rtrancl_induct)
    case base
    then show ?case using "1.prems"(3) by simp
  next
    case (step y z)
    then show ?case using "1.prems"(2) [of y] by (auto simp: in_Ec)
  qed
  show ?case
  proof
    assume "(x, p) \<in> (Ec l)\<^sup>*"
    then have "p \<in> set visited" by (rule closed)
    with "1.prems"(2,4) show False by blast
  qed
next
  case (2 l parentSet visited current dfsStack)
  from "2.prems"(1) have cur: "current \<notin> set parentSet"
    and rec: "\<not> findLoop_while l parentSet (set_add current visited)
             (rev (filter (\<lambda>child. child \<notin> set (set_add current visited))
                     (childrenOf l current)) @ dfsStack)"
    by (auto split: if_splits)
  let ?v = "set_add current visited"
  let ?s = "rev (filter (\<lambda>child. child \<notin> set ?v) (childrenOf l current)) @ dfsStack"
  have inv: "v \<notin> set parentSet \<and> set (childrenOf l v) \<subseteq> set ?v \<union> set ?s" if "v \<in> set ?v" for v
  proof (cases "v = current")
    case True
    then show ?thesis using cur by auto
  next
    case False
    with that have "v \<in> set visited" by (simp add: set_set_add)
    from "2.prems"(2) [OF this] show ?thesis by (auto simp: set_set_add)
  qed
  have "x \<in> set ?v \<union> set ?s"
    using "2.prems"(3) by (auto simp: set_set_add)
  from "2.IH" [OF cur rec inv this "2.prems"(4)] show ?case by simp
qed

lemma findLoop_sound:
  assumes "\<not> findLoop g (Some ps) (Some cs)" "c \<in> set cs" "p \<in> set ps"
  shows "(c, p) \<notin> (Ec (list g))\<^sup>*"
proof -
  have "\<not> findLoop_while (list g) (new_Set ps) [] (rev cs)"
    using assms(1) by (simp add: findLoop_def)
  then show ?thesis
    by (rule findLoop_while_sound) (use assms(2,3) in \<open>simp_all add: set_new_Set\<close>)
qed

section \<open>The loops of the operations\<close>

definition EP :: "graph \<Rightarrow> (string \<times> string) set" where
  "EP g = Ep (list g)"

definition EC :: "graph \<Rightarrow> (string \<times> string) set" where
  "EC g = Ec (list g)"

text \<open>
  \<open>moves g g' A B K\<close>: from \<open>g\<close> to \<open>g'\<close> the keys and the root name stay, both
  edge sets gain at most \<open>A\<close> and edges from the root, an edge of \<open>B\<close> survives only
  when it is in \<open>A\<close> or leaves the root, and the edges on which the two sets differ do
  not grow and lose \<open>K\<close>.
\<close>

definition moves ::
  "graph \<Rightarrow> graph \<Rightarrow> (string \<times> string) set \<Rightarrow> (string \<times> string) set
     \<Rightarrow> (string \<times> string) set \<Rightarrow> bool" where
  "moves g g' A B K \<longleftrightarrow>
     map fst (list g') = map fst (list g) \<and> rootName g' = rootName g \<and>
     EP g' \<subseteq> (EP g - B) \<union> A \<union> Rt (rootName g) \<and>
     EC g' \<subseteq> (EC g - B) \<union> A \<union> Rt (rootName g) \<and>
     sd (EP g') (EC g') \<subseteq> sd (EP g) (EC g) - K"

lemma moves_refl: "moves g g {} {} {}"
  by (auto simp: moves_def)

lemma moves_trans:
  assumes "moves g g' A B K" "moves g' g'' A' B' K'"
  shows "moves g g'' (A \<union> A') (B \<union> B') (K \<union> K')"
proof -
  from assms have r: "rootName g' = rootName g" "rootName g'' = rootName g"
    and k: "map fst (list g'') = map fst (list g)"
    by (simp_all add: moves_def)
  from assms(1) have p1: "EP g' \<subseteq> (EP g - B) \<union> A \<union> Rt (rootName g)"
    and c1: "EC g' \<subseteq> (EC g - B) \<union> A \<union> Rt (rootName g)"
    and s1: "sd (EP g') (EC g') \<subseteq> sd (EP g) (EC g) - K"
    by (simp_all add: moves_def)
  from assms(2) r have p2: "EP g'' \<subseteq> (EP g' - B') \<union> A' \<union> Rt (rootName g)"
    and c2: "EC g'' \<subseteq> (EC g' - B') \<union> A' \<union> Rt (rootName g)"
    and s2: "sd (EP g'') (EC g'') \<subseteq> sd (EP g') (EC g') - K'"
    by (simp_all add: moves_def)
  have "EP g'' \<subseteq> (EP g - (B \<union> B')) \<union> (A \<union> A') \<union> Rt (rootName g)"
    using p1 p2 by blast
  moreover have "EC g'' \<subseteq> (EC g - (B \<union> B')) \<union> (A \<union> A') \<union> Rt (rootName g)"
    using c1 c2 by blast
  moreover have "sd (EP g'') (EC g'') \<subseteq> sd (EP g) (EC g) - (K \<union> K')"
    using s1 s2 by blast
  ultimately show ?thesis using r k by (simp add: moves_def)
qed

lemma moves_weaken:
  assumes "moves g g' A B K" "A \<subseteq> A'" "B' \<subseteq> B" "K' \<subseteq> K"
  shows "moves g g' A' B' K'"
proof -
  from assms(1) have p1: "EP g' \<subseteq> (EP g - B) \<union> A \<union> Rt (rootName g)"
    and c1: "EC g' \<subseteq> (EC g - B) \<union> A \<union> Rt (rootName g)"
    and s1: "sd (EP g') (EC g') \<subseteq> sd (EP g) (EC g) - K"
    and k: "map fst (list g') = map fst (list g)" "rootName g' = rootName g"
    by (simp_all add: moves_def)
  have "EP g' \<subseteq> (EP g - B') \<union> A' \<union> Rt (rootName g)"
    using p1 assms(2,3) by blast
  moreover have "EC g' \<subseteq> (EC g - B') \<union> A' \<union> Rt (rootName g)"
    using c1 assms(2,3) by blast
  moreover have "sd (EP g') (EC g') \<subseteq> sd (EP g) (EC g) - K'"
    using s1 assms(4) by blast
  ultimately show ?thesis using k by (simp add: moves_def)
qed

lemma moves_present: "moves g g' A B K \<Longrightarrow> present g' k = present g k"
  by (simp add: moves_def present_keys)

lemma acts_moves:
  assumes "acts g g' f"
    and "\<And>S. f S \<subseteq> (S - B) \<union> A \<union> Rt (rootName g)"
    and "\<And>X Y. sd (f X) (f Y) \<subseteq> sd X Y - K"
  shows "moves g g' A B K"
  using assms unfolding moves_def acts_def EP_def EC_def by simp

lemma bindChildNode_moves:
  "moves g (bindChildNode g c n) {(n, c)} {}
     (if present g n \<and> present g c then {(n, c)} else {})"
proof (cases "present g n \<and> present g c")
  case True
  then obtain f where a: "acts g (bindChildNode g c n) f"
    and f1: "\<And>S. f S \<subseteq> insert (n, c) S \<union> Rt (rootName g)"
    and f2: "\<And>X Y. sd (f X) (f Y) \<subseteq> sd X Y - {(n, c)}"
    using bindChildNode_summary [of g n c] by blast
  have "f S \<subseteq> (S - {}) \<union> {(n, c)} \<union> Rt (rootName g)" for S
    using f1 [of S] by auto
  from acts_moves [OF a this f2] True show ?thesis by simp
next
  case False
  then have "bindChildNode g c n = g" by (intro bindChildNode_absent) auto
  moreover have "moves g g {(n, c)} {} {}"
    by (rule moves_weaken [OF moves_refl]) auto
  ultimately show ?thesis unfolding if_not_P [OF False] by simp
qed

lemma unbindChildNode_moves:
  "moves g (unbindChildNode g c n) {}
     (if present g n \<and> present g c then {(n, c)} else {}) {}"
proof (cases "present g n \<and> present g c")
  case True
  then obtain f where a: "acts g (unbindChildNode g c n) f"
    and f1: "\<And>S. f S \<subseteq> (S - {(n, c)}) \<union> Rt (rootName g)"
    and f2: "\<And>X Y. sd (f X) (f Y) \<subseteq> sd X Y"
    using unbindChildNode_summary [of g n c] by blast
  have f1': "f S \<subseteq> (S - {(n, c)}) \<union> {} \<union> Rt (rootName g)" for S
    using f1 [of S] by auto
  have f2': "sd (f X) (f Y) \<subseteq> sd X Y - {}" for X Y
    using f2 [of X Y] by auto
  from acts_moves [OF a f1' f2'] True show ?thesis by simp
next
  case False
  then have "unbindChildNode g c n = g" by (intro unbindChildNode_absent) auto
  then show ?thesis unfolding if_not_P [OF False] using moves_refl [of g] by simp
qed

text \<open>The loops.\<close>

lemma fold_bind_parents:
  assumes "present g N" "\<And>p. p \<in> set ps \<Longrightarrow> present g p"
  shows "moves g (fold (\<lambda>parent h. bindChildNode h N parent) ps g)
           (set ps \<times> {N}) {} (set ps \<times> {N})"
  using assms
proof (induction ps arbitrary: g)
  case Nil
  then show ?case using moves_refl by simp
next
  case (Cons p ps)
  let ?g1 = "bindChildNode g N p"
  have m1: "moves g ?g1 {(p, N)} {} {(p, N)}"
    using bindChildNode_moves [of g N p] Cons.prems by simp
  have "moves ?g1 (fold (\<lambda>parent h. bindChildNode h N parent) ps ?g1) (set ps \<times> {N}) {} (set ps \<times> {N})"
    using Cons.prems by (intro Cons.IH) (simp_all add: moves_present [OF m1])
  from moves_trans [OF m1 this]
  have "moves g (fold (\<lambda>parent h. bindChildNode h N parent) ps ?g1)
          (set (p # ps) \<times> {N}) {} (set (p # ps) \<times> {N})"
    by (rule moves_weaken) auto
  then show ?case by simp
qed

lemma fold_bind_children:
  assumes "present g N" "\<And>c. c \<in> set cs \<Longrightarrow> present g c"
  shows "moves g (fold (\<lambda>child h. bindChildNode h child N) cs g)
           ({N} \<times> set cs) {} ({N} \<times> set cs)"
  using assms
proof (induction cs arbitrary: g)
  case Nil
  then show ?case using moves_refl by simp
next
  case (Cons c cs)
  let ?g1 = "bindChildNode g c N"
  have m1: "moves g ?g1 {(N, c)} {} {(N, c)}"
    using bindChildNode_moves [of g c N] Cons.prems by simp
  have "moves ?g1 (fold (\<lambda>child h. bindChildNode h child N) cs ?g1) ({N} \<times> set cs) {} ({N} \<times> set cs)"
    using Cons.prems by (intro Cons.IH) (simp_all add: moves_present [OF m1])
  from moves_trans [OF m1 this]
  have "moves g (fold (\<lambda>child h. bindChildNode h child N) cs ?g1)
          ({N} \<times> set (c # cs)) {} ({N} \<times> set (c # cs))"
    by (rule moves_weaken) auto
  then show ?case by simp
qed

lemma fold_unbind_parents:
  assumes "present g N" "\<And>p. p \<in> set ps \<Longrightarrow> present g p"
  shows "moves g (fold (\<lambda>parent h. unbindChildNode h N parent) ps g)
           {} (set ps \<times> {N}) {}"
  using assms
proof (induction ps arbitrary: g)
  case Nil
  then show ?case using moves_refl by simp
next
  case (Cons p ps)
  let ?g1 = "unbindChildNode g N p"
  have m1: "moves g ?g1 {} {(p, N)} {}"
    using unbindChildNode_moves [of g N p] Cons.prems by simp
  have "moves ?g1 (fold (\<lambda>parent h. unbindChildNode h N parent) ps ?g1) {} (set ps \<times> {N}) {}"
    using Cons.prems by (intro Cons.IH) (simp_all add: moves_present [OF m1])
  from moves_trans [OF m1 this]
  have "moves g (fold (\<lambda>parent h. unbindChildNode h N parent) ps ?g1)
          {} (set (p # ps) \<times> {N}) {}"
    by (rule moves_weaken) auto
  then show ?case by simp
qed

lemma fold_bind_any:
  "moves g (fold (\<lambda>parent k. bindChildNode k c parent) ps g) (set ps \<times> {c}) {} {}"
proof (induction ps arbitrary: g)
  case Nil
  then show ?case using moves_refl by simp
next
  case (Cons p ps)
  have m1: "moves g (bindChildNode g c p) {(p, c)} {} {}"
    using bindChildNode_moves [of g c p] by (rule moves_weaken) auto
  from moves_trans [OF m1 Cons.IH [of "bindChildNode g c p"]]
  have "moves g (fold (\<lambda>parent k. bindChildNode k c parent) ps (bindChildNode g c p))
          (set (p # ps) \<times> {c}) {} {}"
    by (rule moves_weaken) auto
  then show ?case by simp
qed

lemma fold_relink_children:
  assumes "present g N" "\<And>c. c \<in> set cs \<Longrightarrow> present g c"
  shows "moves g (fold (\<lambda>child h.
                         let h1 = unbindChildNode h child N
                         in if \<not> isUpdate
                            then fold (\<lambda>parent k. bindChildNode k child parent) pa h1
                            else h1) cs g)
           (if isUpdate then {} else set pa \<times> set cs) ({N} \<times> set cs) {}"
  using assms
proof (induction cs arbitrary: g)
  case Nil
  then show ?case using moves_refl by simp
next
  case (Cons c cs)
  let ?step = "\<lambda>child h. let h1 = unbindChildNode h child N
                         in if \<not> isUpdate
                            then fold (\<lambda>parent k. bindChildNode k child parent) pa h1
                            else h1"
  let ?h1 = "unbindChildNode g c N"
  let ?g1 = "?step c g"
  have m0: "moves g ?h1 {} {(N, c)} {}"
    using unbindChildNode_moves [of g c N] Cons.prems by simp
  have m1: "moves g ?g1 (if isUpdate then {} else set pa \<times> {c}) {(N, c)} {}"
  proof (cases isUpdate)
    case True
    then show ?thesis using m0 by (simp add: Let_def)
  next
    case False
    have "moves ?h1 (fold (\<lambda>parent k. bindChildNode k c parent) pa ?h1) (set pa \<times> {c}) {} {}"
      by (rule fold_bind_any)
    from moves_trans [OF m0 this] False show ?thesis by (simp add: Let_def)
  qed
  have "moves ?g1 (fold ?step cs ?g1) (if isUpdate then {} else set pa \<times> set cs) ({N} \<times> set cs) {}"
    using Cons.prems by (intro Cons.IH) (simp_all add: moves_present [OF m1])
  from moves_trans [OF m1 this]
  have "moves g (fold ?step cs ?g1)
          (if isUpdate then {} else set pa \<times> set (c # cs)) ({N} \<times> set (c # cs)) {}"
    by (rule moves_weaken) auto
  then show ?case by simp
qed

section \<open>Well-formed graphs\<close>

definition wf_graph :: "graph \<Rightarrow> bool" where
  "wf_graph g \<longleftrightarrow>
     EP g = EC g \<and> acyclic (EC g) \<and> (\<forall>a. (a, rootName g) \<notin> EC g) \<and>
     present g (rootName g)"

lemma EC_present: "(a, b) \<in> EC g \<Longrightarrow> present g a"
  by (cases "map_of (list g) a") (auto simp: EC_def in_Ec childrenOf_None present_def has_def)

lemma EP_present: "(a, b) \<in> EP g \<Longrightarrow> present g b"
  by (cases "map_of (list g) b") (auto simp: EP_def in_Ep parentsOf_None present_def has_def)

lemma Ep_update_fresh:
  assumes "map_of l N = None"
  shows "Ep (AList.update N v l) = Ep l \<union> set (orEmpty (parents v)) \<times> {N}"
proof -
  have "(a, b) \<in> Ep (AList.update N v l) \<longleftrightarrow> (a, b) \<in> Ep l \<union> set (orEmpty (parents v)) \<times> {N}"
    for a b
    using assms by (cases "b = N") (simp_all add: in_Ep parentsOf_def update_conv')
  then show ?thesis by auto
qed

lemma Ec_update_fresh:
  assumes "map_of l N = None"
  shows "Ec (AList.update N v l) = Ec l \<union> {N} \<times> set (orEmpty (children v))"
proof -
  have "(a, b) \<in> Ec (AList.update N v l) \<longleftrightarrow> (a, b) \<in> Ec l \<union> {N} \<times> set (orEmpty (children v))"
    for a b
    using assms by (cases "a = N") (simp_all add: in_Ec childrenOf_def update_conv')
  then show ?thesis by auto
qed

lemma Ep_delete: "Ep (AList.delete N l) = {(a, b). (a, b) \<in> Ep l \<and> b \<noteq> N}"
proof -
  have "(a, b) \<in> Ep (AList.delete N l) \<longleftrightarrow> (a, b) \<in> Ep l \<and> b \<noteq> N" for a b
    by (cases "b = N") (simp_all add: in_Ep parentsOf_def delete_conv')
  then show ?thesis by auto
qed

lemma Ec_delete: "Ec (AList.delete N l) = {(a, b). (a, b) \<in> Ec l \<and> a \<noteq> N}"
proof -
  have "(a, b) \<in> Ec (AList.delete N l) \<longleftrightarrow> (a, b) \<in> Ec l \<and> a \<noteq> N" for a b
    by (cases "a = N") (simp_all add: in_Ec childrenOf_def delete_conv')
  then show ?thesis by auto
qed

text \<open>The last step of \<^verbatim>\<open>removeNode\<close>: the node is struck from the root's child set.\<close>

definition strikeFromRoot :: "graph \<Rightarrow> string \<Rightarrow> graph" where
  "strikeFromRoot g3 nm =
     (case map_of (list g3) (rootName g3) of
                    None \<Rightarrow> g3
                  | Some rootNode \<Rightarrow>
                      (case children rootNode of
                         None \<Rightarrow> g3
                       | Some cs \<Rightarrow>
                           g3\<lparr>list := modify (rootName g3)
                                 (\<lambda>n. n\<lparr>children := map_option (set_delete nm) (children n)\<rparr>)
                                 (list g3)\<rparr>))"

lemma strikeFromRoot_effect:
  "EC (strikeFromRoot g nm) = EC g - {(rootName g, nm)} \<and> EP (strikeFromRoot g nm) = EP g \<and>
   map fst (list (strikeFromRoot g nm)) = map fst (list g) \<and>
   rootName (strikeFromRoot g nm) = rootName g"
proof (cases "map_of (list g) (rootName g)")
  case None
  then have "(rootName g, nm) \<notin> EC g"
    by (simp add: EC_def in_Ec childrenOf_None)
  with None show ?thesis by (simp add: strikeFromRoot_def)
next
  case (Some rootNode)
  show ?thesis
  proof (cases "children rootNode")
    case None
    with Some have "(rootName g, nm) \<notin> EC g"
      by (simp add: EC_def in_Ec childrenOf_Some orEmpty_simps)
    with None Some show ?thesis by (simp add: strikeFromRoot_def)
  next
    case (Some cs)
    with \<open>map_of (list g) (rootName g) = Some rootNode\<close> show ?thesis
      by (simp add: strikeFromRoot_def EC_def EP_def Ec_delete_child Ep_children_write keys_modify)
  qed
qed

definition removeNode_write :: "graph \<Rightarrow> string \<Rightarrow> bool \<Rightarrow> entryNode \<Rightarrow> graph" where
  "removeNode_write g nm isUpdate node =
     (let g2 = fold (\<lambda>child h.
                         let h1 = unbindChildNode h child nm
                         in if \<not> isUpdate
                            then fold (\<lambda>parent k. bindChildNode k child parent)
                                   (orEmpty (parents node)) h1
                            else h1) (orEmpty (children node))
                 (fold (\<lambda>parent h. unbindChildNode h nm parent) (orEmpty (parents node)) g)
      in strikeFromRoot (g2\<lparr>list := AList.delete nm (list g2)\<rparr>) nm)"

lemma removeNode_unfold:
  "removeNode g nm isUpdate =
    (if nm = rootName g then (Some RootRemoval, g)
     else case map_of (list g) nm of
       None \<Rightarrow> (Some MissingEntry, g)
     | Some node \<Rightarrow> (None, removeNode_write g nm isUpdate node))"
  unfolding removeNode_def removeNode_write_def strikeFromRoot_def Let_def has_def
  by (simp split: option.split)

lemma removeNode_write_wf:
  assumes wf: "wf_graph g" and node: "map_of (list g) N = Some node" and Nr: "N \<noteq> rootName g"
  shows "wf_graph (removeNode_write g N u node) \<and>
         EC (removeNode_write g N u node) \<subseteq>
           EC g \<union> (if u then {} else {(p, c). (p, N) \<in> EC g \<and> (N, c) \<in> EC g}) \<union> Rt (rootName g) \<and>
         map fst (list (removeNode_write g N u node)) = removeAll N (map fst (list g)) \<and>
         rootName (removeNode_write g N u node) = rootName g"
proof -
  let ?pa = "orEmpty (parents node)"
  let ?ca = "orEmpty (children node)"
  define E where "E = EC g"
  from wf have cons: "EP g = E" and acyc: "acyclic E" and noin: "\<And>a. (a, rootName g) \<notin> E"
    and rp: "present g (rootName g)"
    by (simp_all add: wf_graph_def E_def)
  have pa: "set ?pa = {p. (p, N) \<in> E}"
    using node cons by (auto simp: EP_def in_Ep parentsOf_Some)
  have ca: "set ?ca = {c. (N, c) \<in> E}"
    using node by (auto simp: E_def EC_def in_Ec childrenOf_Some)
  have NN: "(N, N) \<notin> E" using acyc by (auto simp: acyclic_def)
  have pN: "present g N" using node by (simp add: present_def has_def)
  have ppa: "present g p" if "p \<in> set ?pa" for p
    using that pa EC_present [of p N g] by (simp add: E_def)
  have pca: "present g c" if "c \<in> set ?ca" for c
    using that ca EP_present [of N c g] cons by simp
  define g1 where "g1 = fold (\<lambda>parent h. unbindChildNode h N parent) ?pa g"
  define g2 where "g2 = fold (\<lambda>child h.
                         let h1 = unbindChildNode h child N
                         in if \<not> u
                            then fold (\<lambda>parent k. bindChildNode k child parent) ?pa h1
                            else h1) ?ca g1"
  define A where "A = (if u then {} else set ?pa \<times> set ?ca)"
  have m1: "moves g g1 {} (set ?pa \<times> {N}) {}"
    unfolding g1_def using pN ppa by (rule fold_unbind_parents)
  have m2: "moves g1 g2 A ({N} \<times> set ?ca) {}"
    unfolding g2_def A_def
    by (rule fold_relink_children) (simp_all add: moves_present [OF m1] pN pca)
  have m: "moves g g2 A (set ?pa \<times> {N} \<union> {N} \<times> set ?ca) {}"
    using moves_trans [OF m1 m2] by simp
  then have k2: "map fst (list g2) = map fst (list g)" and r2: "rootName g2 = rootName g"
    and p2: "EP g2 \<subseteq> (E - (set ?pa \<times> {N} \<union> {N} \<times> set ?ca)) \<union> A \<union> Rt (rootName g)"
    and c2: "EC g2 \<subseteq> (E - (set ?pa \<times> {N} \<union> {N} \<times> set ?ca)) \<union> A \<union> Rt (rootName g)"
    and s2: "sd (EP g2) (EC g2) \<subseteq> sd (EP g) (EC g)"
    by (auto simp: moves_def cons E_def)
  have cons2: "EP g2 = EC g2"
    using s2 cons by (simp add: E_def sd_def) blast
  have touch: "(a, b) \<in> EC g2 \<Longrightarrow> a \<noteq> N \<and> (b = N \<longrightarrow> a = rootName g)" for a b
    using c2 pa ca NN Nr by (auto simp: A_def Rt_def split: if_splits)
  define g3 where "g3 = g2\<lparr>list := AList.delete N (list g2)\<rparr>"
  define g4 where "g4 = strikeFromRoot g3 N"
  have eq: "removeNode_write g N u node = g4"
    unfolding g4_def g3_def g2_def g1_def removeNode_write_def Let_def ..
  have e3: "EC g3 = {(a, b). (a, b) \<in> EC g2 \<and> a \<noteq> N}"
    and p3: "EP g3 = {(a, b). (a, b) \<in> EP g2 \<and> b \<noteq> N}"
    and r3: "rootName g3 = rootName g"
    and k3: "map fst (list g3) = removeAll N (map fst (list g))"
    by (simp_all add: g3_def EC_def EP_def Ec_delete Ep_delete r2 delete_keys k2)
  have e4: "EC g4 = EC g3 - {(rootName g, N)}" and p4: "EP g4 = EP g3"
    and k4: "map fst (list g4) = removeAll N (map fst (list g))" and r4: "rootName g4 = rootName g"
    using strikeFromRoot_effect [of g3 N] by (simp_all add: g4_def r3 k3)
  have cons4: "EP g4 = EC g4"
  proof -
    have "(a, b) \<in> EP g4 \<longleftrightarrow> (a, b) \<in> EC g4" for a b
      using touch [of a b] unfolding e4 p4 e3 p3 cons2 by blast
    then show ?thesis by auto
  qed
  have sub4: "EC g4 \<subseteq> E \<union> A \<union> Rt (rootName g)"
    unfolding e4 e3 using c2 by auto
  have AE: "A \<subseteq> E\<^sup>+"
    using pa ca by (auto simp: A_def)
  have "EC g4 \<subseteq> E\<^sup>+ \<union> Rt (rootName g)"
    using sub4 AE by auto
  from acyclic_root_edges [OF acyclic_trancl [OF acyc] no_in_trancl this] noin
  have "acyclic (EC g4) \<and> (\<forall>a. (a, rootName g) \<notin> EC g4)" by blast
  moreover have "present g4 (rootName g4)"
    using rp Nr by (simp add: present_keys k4 r4)
  ultimately have wf4: "wf_graph g4"
    using cons4 by (simp add: wf_graph_def r4)
  have A': "A = (if u then {} else {(p, c). (p, N) \<in> EC g \<and> (N, c) \<in> EC g})"
    using pa ca by (auto simp: A_def E_def)
  have "EC g4 \<subseteq> EC g \<union> (if u then {} else {(p, c). (p, N) \<in> EC g \<and> (N, c) \<in> EC g})
           \<union> Rt (rootName g)"
    using sub4 unfolding A' E_def .
  with wf4 k4 r4 show ?thesis unfolding eq by (intro conjI)
qed

definition addNode_write ::
  "graph \<Rightarrow> string \<Rightarrow> int \<Rightarrow> string list option \<Rightarrow> string list option \<Rightarrow> Color
     \<Rightarrow> dateref option \<Rightarrow> graph" where
  "addNode_write g nm dur ps cs col st =
     (let ps1 = (if ps = None \<and> nm \<noteq> rootName g then Some [rootName g] else ps);
            g1 = g\<lparr>list := AList.update nm
                   \<lparr>name = nm, duration = dur,
                    parents = map_option new_Set ps1,
                    children = map_option new_Set cs,
                    color = col, start = st\<rparr> (list g)\<rparr>;
            g2 = (case ps1 of
                    None \<Rightarrow> g1
                  | Some parentsArr \<Rightarrow> fold (\<lambda>parent h. bindChildNode h nm parent) parentsArr g1);
            g3 = (case cs of
                    None \<Rightarrow> g2
                  | Some childrenArr \<Rightarrow> fold (\<lambda>child h. bindChildNode h child nm) childrenArr g2)
        in g3)"

lemma addNode_unfold:
  "addNode g nm dur ps cs col st validate =
    (if length (list g) \<ge> MAX_NODES then (Some NodeLimitExceeded, g)
     else if has (list g) nm then (Some EntryDuplicate, g)
     else case (if validate then runCommonValidation g nm dur ps cs else None) of
       Some e \<Rightarrow> (Some e, g)
     | None \<Rightarrow> (None, addNode_write g nm dur ps cs col st))"
  unfolding addNode_def addNode_write_def Let_def ..

lemma case_fold: "(case x of None \<Rightarrow> g | Some arr \<Rightarrow> fold f arr g) = fold f (orEmpty x) g"
  by (cases x) (simp_all add: orEmpty_simps)

lemma set_orEmpty_new_Set: "set (orEmpty (map_option new_Set x)) = set (orEmpty x)"
  by (cases x) (simp_all add: orEmpty_simps set_new_Set)

lemma rtrancl_root_edges:
  assumes noin: "\<And>a. (a, r) \<notin> F" and ab: "(a, b) \<in> (F \<union> Rt r)\<^sup>*" and ar: "a \<noteq> r"
  shows "(a, b) \<in> F\<^sup>*"
proof -
  from ab have "a = b \<or> (a, b) \<in> (F \<union> Rt r)\<^sup>+" by (auto simp: rtrancl_eq_or_trancl)
  then show ?thesis
  proof
    assume "a = b" then show ?thesis by simp
  next
    assume "(a, b) \<in> (F \<union> Rt r)\<^sup>+"
    from trancl_root_edges [OF noin this] ar show ?thesis by auto
  qed
qed

lemma addNode_write_wf:
  assumes wf: "wf_graph g" and fresh: "\<not> present g N"
    and pp: "\<And>p. p \<in> set (orEmpty ps) \<Longrightarrow> present g p"
    and pc: "\<And>c. c \<in> set (orEmpty cs) \<Longrightarrow> present g c \<and> c \<noteq> rootName g"
    and nopath: "\<And>c p. c \<in> set (orEmpty cs) \<Longrightarrow> p \<in> set (orEmpty ps) \<Longrightarrow> (c, p) \<notin> (EC g)\<^sup>*"
  shows "wf_graph (addNode_write g N dur ps cs col st)"
proof -
  define E where "E = EC g"
  from wf have cons: "EP g = E" and acyc: "acyclic E" and noin: "\<And>a. (a, rootName g) \<notin> E"
    and rp: "present g (rootName g)"
    by (simp_all add: wf_graph_def E_def)
  from fresh rp have Nr: "N \<noteq> rootName g" by auto
  define ps1 where "ps1 = (if ps = None \<and> N \<noteq> rootName g then Some [rootName g] else ps)"
  define P where "P = set (orEmpty ps1)"
  define C where "C = set (orEmpty cs)"
  have P: "P = (if ps = None then {rootName g} else set (orEmpty ps))"
    using Nr by (simp add: P_def ps1_def orEmpty_simps)
  have pP: "present g p" if "p \<in> P" for p
    using that rp pp by (auto simp: P split: if_splits)
  define node where "node = \<lparr>name = N, duration = dur,
                    parents = map_option new_Set ps1,
                    children = map_option new_Set cs,
                    color = col, start = st\<rparr>"
  define g1 where "g1 = g\<lparr>list := AList.update N node (list g)\<rparr>"
  define g2 where "g2 = fold (\<lambda>parent h. bindChildNode h N parent) (orEmpty ps1) g1"
  define g3 where "g3 = fold (\<lambda>child h. bindChildNode h child N) (orEmpty cs) g2"
  have eq: "addNode_write g N dur ps cs col st = g3"
    unfolding addNode_write_def Let_def case_fold g3_def g2_def g1_def node_def ps1_def ..
  have Nnone: "map_of (list g) N = None"
    using fresh by (simp add: present_def has_def)
  have "EP g1 = EP g \<union> P \<times> {N}"
    by (simp add: g1_def EP_def Ep_update_fresh [OF Nnone] node_def set_orEmpty_new_Set P_def)
  then have p1: "EP g1 = E \<union> P \<times> {N}" by (simp add: cons)
  have "EC g1 = EC g \<union> {N} \<times> C"
    by (simp add: g1_def EC_def Ec_update_fresh [OF Nnone] node_def set_orEmpty_new_Set C_def)
  then have c1: "EC g1 = E \<union> {N} \<times> C" by (simp add: E_def)
  have k1: "present g1 k \<longleftrightarrow> present g k \<or> k = N" for k
    by (auto simp: present_keys g1_def update_keys)
  have r1: "rootName g1 = rootName g" by (simp add: g1_def)
  have m1: "moves g1 g2 (P \<times> {N}) {} (P \<times> {N})"
    unfolding g2_def P_def
    by (rule fold_bind_parents) (use pP in \<open>auto simp: k1 P_def\<close>)
  have m2: "moves g2 g3 ({N} \<times> C) {} ({N} \<times> C)"
    unfolding g3_def C_def
    by (rule fold_bind_children) (use pc in \<open>auto simp: moves_present [OF m1] k1\<close>)
  have m: "moves g1 g3 (P \<times> {N} \<union> {N} \<times> C) {} (P \<times> {N} \<union> {N} \<times> C)"
    using moves_trans [OF m1 m2] by simp
  have sd1: "sd (EP g1) (EC g1) \<subseteq> P \<times> {N} \<union> {N} \<times> C"
    unfolding p1 c1 by (auto simp: sd_def)
  from m have "sd (EP g3) (EC g3) \<subseteq> sd (EP g1) (EC g1) - (P \<times> {N} \<union> {N} \<times> C)"
    by (simp add: moves_def)
  with sd1 have "sd (EP g3) (EC g3) = {}" by blast
  then have cons3: "EP g3 = EC g3" by (simp add: sd_empty_iff)
  from m have sub3: "EC g3 \<subseteq> (E \<union> P \<times> {N} \<union> {N} \<times> C) \<union> Rt (rootName g)"
    and r3: "rootName g3 = rootName g"
    and k3: "\<And>k. present g3 k = present g1 k"
    unfolding moves_def c1 r1 present_keys by auto
  have iso: "(a, N) \<notin> E \<and> (N, a) \<notin> E" for a
    using fresh EC_present [of N a g] EP_present [of a N g] cons by (auto simp: E_def)
  have NP: "N \<notin> P" using fresh pP by auto
  have NC: "N \<notin> C" using fresh pc by (auto simp: C_def)
  have np: "(c, p) \<notin> E\<^sup>*" if "c \<in> C" "p \<in> P" for c p
  proof (cases "ps = None")
    case True
    with that have "p = rootName g" by (simp add: P)
    moreover have "c \<noteq> rootName g" using that pc by (simp add: C_def)
    ultimately show ?thesis using no_in_rtrancl [of "rootName g" E c] noin by auto
  next
    case False
    with that show ?thesis using nopath [of c p] by (simp add: P C_def E_def)
  qed
  have "acyclic (E \<union> P \<times> {N} \<union> {N} \<times> C)"
    using acyc iso np NP NC by (rule acyclic_fresh_node)
  moreover have "(a, rootName g) \<notin> E \<union> P \<times> {N} \<union> {N} \<times> C" for a
    using noin Nr pc by (auto simp: C_def)
  ultimately have "acyclic (EC g3) \<and> (\<forall>a. (a, rootName g) \<notin> EC g3)"
    using sub3 by (intro acyclic_root_edges) auto
  moreover have "present g3 (rootName g3)"
    using rp by (simp add: k3 k1 r3)
  ultimately show ?thesis
    using cons3 by (simp add: wf_graph_def eq r3)
qed

section \<open>Reachable graph states\<close>

text \<open>
  The graphs that the constructor and the calls of the interface produce: a call of
  \<^verbatim>\<open>addNode\<close> through the interface validates; a call that throws leaves the
  graph as it is at the throw.
\<close>

inductive reachable :: "graph \<Rightarrow> bool" where
  reach_new: "new_AdjacencyList root i d = (None, g) \<Longrightarrow> reachable g"
| reach_add: "reachable g \<Longrightarrow> reachable (snd (addNode g nm dur ps cs col st True))"
| reach_update: "reachable g \<Longrightarrow> reachable (snd (updateNode g nm newName dur ps cs col st))"
| reach_remove: "reachable g \<Longrightarrow> reachable (snd (removeNode g nm isUpdate))"
| reach_color: "reachable g \<Longrightarrow> reachable (setDefaultColor g c)"
| reach_start: "reachable g \<Longrightarrow> reachable (setStartDate g d)"

lemma validateParents_None:
  "validateParents g N arr = None \<Longrightarrow> p \<in> set arr \<Longrightarrow> present g p \<and> p \<noteq> N"
  by (induction arr) (auto simp: present_def split: if_splits)

lemma validateChildren_None:
  "validateChildren g N arr = None \<Longrightarrow> c \<in> set arr \<Longrightarrow>
     present g c \<and> c \<noteq> N \<and> c \<noteq> rootName g"
  by (induction arr) (auto simp: present_def split: if_splits)

lemma runCommonValidation_None:
  assumes "runCommonValidation g N dur ps cs = None"
  shows "(\<forall>p\<in>set (orEmpty ps). present g p \<and> p \<noteq> N) \<and>
         (\<forall>c\<in>set (orEmpty cs). present g c \<and> c \<noteq> N \<and> c \<noteq> rootName g) \<and>
         \<not> findLoop g ps cs"
proof -
  from assms have vp: "(case ps of None \<Rightarrow> None | Some a \<Rightarrow> validateParents g N a) = None"
    and vc: "(case cs of None \<Rightarrow> None | Some a \<Rightarrow> validateChildren g N a) = None"
    and fl: "\<not> findLoop g ps cs"
    by (auto simp: runCommonValidation_def split: if_splits option.splits)
  have "present g p \<and> p \<noteq> N" if "p \<in> set (orEmpty ps)" for p
    using vp that validateParents_None [of g N _ p] by (cases ps) (auto simp: orEmpty_simps)
  moreover have "present g c \<and> c \<noteq> N \<and> c \<noteq> rootName g" if "c \<in> set (orEmpty cs)" for c
    using vc that validateChildren_None [of g N _ c] by (cases cs) (auto simp: orEmpty_simps)
  ultimately show ?thesis using fl by blast
qed

lemma findLoop_nopath:
  assumes "\<not> findLoop g ps cs" "c \<in> set (orEmpty cs)" "p \<in> set (orEmpty ps)"
  shows "(c, p) \<notin> (EC g)\<^sup>*"
proof -
  from assms(2,3) obtain a b where "ps = Some a" "cs = Some b"
    by (cases ps; cases cs) (auto simp: orEmpty_simps)
  with assms show ?thesis
    using findLoop_sound [of g a b c p] by (simp add: orEmpty_simps EC_def)
qed

lemma addNode_wf:
  assumes "wf_graph g"
  shows "wf_graph (snd (addNode g N dur ps cs col st True))"
proof (cases "fst (addNode g N dur ps cs col st True)")
  case (Some e)
  then have "snd (addNode g N dur ps cs col st True) = g"
    by (auto simp: addNode_unfold split: if_splits option.splits)
  with assms show ?thesis by simp
next
  case None
  then have fresh: "\<not> present g N" and val: "runCommonValidation g N dur ps cs = None"
    and eq: "snd (addNode g N dur ps cs col st True) = addNode_write g N dur ps cs col st"
    by (auto simp: addNode_unfold present_def split: if_splits option.splits)
  note v = runCommonValidation_None [OF val]
  show ?thesis
    unfolding eq
    by (rule addNode_write_wf [OF assms fresh]) (use v findLoop_nopath in auto)
qed

lemma removeNode_wf:
  assumes "wf_graph g"
  shows "wf_graph (snd (removeNode g N u))"
  using assms removeNode_write_wf [of g N _ u]
  by (auto simp: removeNode_unfold split: option.splits)

lemma updateNode_wf:
  assumes wf: "wf_graph g"
  shows "wf_graph (snd (updateNode g N newNameArg durationArg parentsArg childrenArg colorArg startArg))"
proof -
  define node where "node = map_of (list g) N"
  define newName where "newName = (case newNameArg of None \<Rightarrow> N | Some v \<Rightarrow> v)"
  define dur where "dur = (case durationArg of
                  None \<Rightarrow> (case node of None \<Rightarrow> 0 | Some n \<Rightarrow> duration n)
                | Some v \<Rightarrow> v)"
  define ps where "ps = (case parentsArg of
                 None \<Rightarrow> Some (case node of None \<Rightarrow> [] | Some n \<Rightarrow> orEmpty (parents n))
               | Some v \<Rightarrow> v)"
  define cs where "cs = (case childrenArg of
                 None \<Rightarrow> Some (case node of None \<Rightarrow> [] | Some n \<Rightarrow> orEmpty (children n))
               | Some v \<Rightarrow> v)"
  define col where "col = (case colorArg of None \<Rightarrow> defaultColor g | Some v \<Rightarrow> v)"
  define st where "st = (case startArg of
                 None \<Rightarrow> (case node of None \<Rightarrow> None | Some n \<Rightarrow> start n)
               | Some v \<Rightarrow> v)"
  define ps1 where "ps1 = (if ps = Some [] then None else ps)"
  define cs1 where "cs1 = (if cs = Some [] then None else cs)"
  let ?r = "updateNode g N newNameArg durationArg parentsArg childrenArg colorArg startArg"
  have unfold: "?r =
     (if N = rootName g then (Some RootChange, g)
        else if has (list g) newName \<and> newName \<noteq> N then (Some EntryDuplicate, g)
        else if \<not> has (list g) N then (Some MissingEntry, g)
        else case runCommonValidation g N dur ps cs of
          Some e \<Rightarrow> (Some e, g)
        | None \<Rightarrow>
           (case fst (removeNode g N True) of
                Some e \<Rightarrow> (Some e, snd (removeNode g N True))
              | None \<Rightarrow> addNode (snd (removeNode g N True)) newName dur ps1 cs1 col st False))"
    unfolding updateNode_def Let_def node_def newName_def dur_def ps_def cs_def col_def st_def
      ps1_def cs1_def ..
  show ?thesis
  proof (cases "N = rootName g \<or> (has (list g) newName \<and> newName \<noteq> N) \<or> \<not> has (list g) N
                 \<or> runCommonValidation g N dur ps cs \<noteq> None")
    case True
    then have "snd ?r = g" unfolding unfold by (auto split: option.splits)
    with wf show ?thesis by simp
  next
    case False
    then have Nr: "N \<noteq> rootName g" and hN: "has (list g) N"
      and val: "runCommonValidation g N dur ps cs = None"
      by auto
    from hN obtain nd where nd: "map_of (list g) N = Some nd" by (auto simp: has_def)
    define g1 where "g1 = removeNode_write g N True nd"
    have rem: "removeNode g N True = (None, g1)"
      using Nr nd by (simp add: removeNode_unfold g1_def)
    have r: "?r = addNode g1 newName dur ps1 cs1 col st False"
      unfolding unfold using Nr hN val False rem by auto
    from removeNode_write_wf [OF wf nd Nr, of True]
    have wf1: "wf_graph g1" and e1: "EC g1 \<subseteq> EC g \<union> Rt (rootName g)"
      and k1: "map fst (list g1) = removeAll N (map fst (list g))"
      and r1: "rootName g1 = rootName g"
      by (simp_all add: g1_def)
    show ?thesis
    proof (cases "fst (addNode g1 newName dur ps1 cs1 col st False)")
      case (Some e)
      then have "snd (addNode g1 newName dur ps1 cs1 col st False) = g1"
        by (auto simp: addNode_unfold split: if_splits)
      with wf1 r show ?thesis by simp
    next
      case None
      then have fresh: "\<not> present g1 newName"
        and eq: "snd (addNode g1 newName dur ps1 cs1 col st False) =
                   addNode_write g1 newName dur ps1 cs1 col st"
        by (auto simp: addNode_unfold present_def split: if_splits)
      note v = runCommonValidation_None [OF val]
      have o1: "orEmpty ps1 = orEmpty ps" "orEmpty cs1 = orEmpty cs"
        by (simp_all add: ps1_def cs1_def orEmpty_simps)
      have pres: "present g1 k \<longleftrightarrow> present g k \<and> k \<noteq> N" for k
        by (auto simp: present_keys k1)
      from wf have noin: "\<And>a. (a, rootName g) \<notin> EC g" by (simp add: wf_graph_def)
      have np: "(c, p) \<notin> (EC g1)\<^sup>*" if "c \<in> set (orEmpty cs1)" "p \<in> set (orEmpty ps1)" for c p
      proof
        assume "(c, p) \<in> (EC g1)\<^sup>*"
        then have "(c, p) \<in> (EC g \<union> Rt (rootName g))\<^sup>*"
          using e1 rtrancl_mono by blast
        moreover have "c \<noteq> rootName g" using v that by (simp add: o1)
        ultimately have "(c, p) \<in> (EC g)\<^sup>*"
          using rtrancl_root_edges [of "rootName g" "EC g" c p] noin by blast
        moreover have "(c, p) \<notin> (EC g)\<^sup>*"
          using v that findLoop_nopath [of g ps cs c p] by (simp add: o1)
        ultimately show False by simp
      qed
      have "wf_graph (addNode_write g1 newName dur ps1 cs1 col st)"
        by (rule addNode_write_wf [OF wf1 fresh]) (use v np in \<open>auto simp: o1 pres r1\<close>)
      with r eq show ?thesis by simp
    qed
  qed
qed

lemma new_AdjacencyList_wf:
  assumes "new_AdjacencyList root i d = (None, g)"
  shows "wf_graph g"
proof -
  let ?g0 = "\<lparr>ident = i, list = [], defaultColor = Color1, startDate = d, rootName = root\<rparr>"
  from assms have "g = addNode_write ?g0 root 0 None None Color1 None"
    by (auto simp: new_AdjacencyList_def Let_def addNode_unfold split: if_splits option.splits)
  then have g: "list g = [(root, \<lparr>name = root, duration = 0, parents = None, children = None,
                    color = Color1, start = None\<rparr>)]" and r: "rootName g = root"
    by (simp_all add: addNode_write_def)
  have "EP g = {}" "EC g = {}"
    by (auto simp: EP_def EC_def Ep_def Ec_def parentsOf_def childrenOf_def g orEmpty_simps)
  then show ?thesis
    by (simp add: wf_graph_def present_keys g r acyclic_def)
qed

lemma reachable_wf: "reachable g \<Longrightarrow> wf_graph g"
proof (induction rule: reachable.induct)
  case (reach_new root i d g)
  then show ?case by (rule new_AdjacencyList_wf)
next
  case (reach_add g nm dur ps cs col st)
  then show ?case by (simp add: addNode_wf)
next
  case (reach_update g nm newName dur ps cs col st)
  then show ?case by (simp add: updateNode_wf)
next
  case (reach_remove g nm isUpdate)
  then show ?case by (simp add: removeNode_wf)
next
  case (reach_color g c)
  then show ?case by (simp add: wf_graph_def setDefaultColor_def EP_def EC_def present_def)
next
  case (reach_start g d)
  then show ?case by (simp add: wf_graph_def setStartDate_def EP_def EC_def present_def)
qed

lemma findLoop_validation:
  "findLoop g ps cs \<Longrightarrow> runCommonValidation g N dur ps cs \<noteq> None"
  by (simp add: runCommonValidation_def split: option.split)

lemma validateParents_passes:
  "(\<And>q. q \<in> set arr \<Longrightarrow> has (list g) q \<and> q \<noteq> N) \<Longrightarrow> validateParents g N arr = None"
  by (induction arr) auto

lemma validateChildren_passes:
  "(\<And>d. d \<in> set arr \<Longrightarrow> has (list g) d \<and> d \<noteq> N \<and> d \<noteq> rootName g) \<Longrightarrow>
     validateChildren g N arr = None"
  by (induction arr) auto

lemma runCommonValidation_GraphLoop:
  assumes "findLoop g (Some ps) (Some cs)" "N \<noteq> []" "\<not> (dur = 0 \<and> N \<noteq> rootName g)" "\<not> dur < 0"
    and "\<And>q. q \<in> set ps \<Longrightarrow> has (list g) q \<and> q \<noteq> N"
    and "\<And>d. d \<in> set cs \<Longrightarrow> has (list g) d \<and> d \<noteq> N \<and> d \<noteq> rootName g"
  shows "runCommonValidation g N dur (Some ps) (Some cs) = Some GraphLoop"
proof -
  have "validateParents g N ps = None" by (rule validateParents_passes) (rule assms(5))
  moreover have "validateChildren g N cs = None" by (rule validateChildren_passes) (rule assms(6))
  ultimately show ?thesis
    using assms(1-4) by (simp add: runCommonValidation_def)
qed

lemma updateNode_validation:
  "updateNode g N newNameArg durationArg parentsArg childrenArg colorArg startArg =
     (if N = rootName g then (Some RootChange, g)
      else if has (list g) (case newNameArg of None \<Rightarrow> N | Some v \<Rightarrow> v) \<and>
              (case newNameArg of None \<Rightarrow> N | Some v \<Rightarrow> v) \<noteq> N then (Some EntryDuplicate, g)
      else if \<not> has (list g) N then (Some MissingEntry, g)
      else (Some e, g))"
  if "runCommonValidation g N
        (case durationArg of
           None \<Rightarrow> (case map_of (list g) N of None \<Rightarrow> 0 | Some n \<Rightarrow> duration n)
         | Some v \<Rightarrow> v)
        (case parentsArg of
           None \<Rightarrow> Some (case map_of (list g) N of None \<Rightarrow> [] | Some n \<Rightarrow> orEmpty (parents n))
         | Some v \<Rightarrow> v)
        (case childrenArg of
           None \<Rightarrow> Some (case map_of (list g) N of None \<Rightarrow> [] | Some n \<Rightarrow> orEmpty (children n))
         | Some v \<Rightarrow> v) = Some e"
  unfolding updateNode_def Let_def using that by simp

lemma graph0_eq:
  "new_AdjacencyList ''root'' ''g'' 0 = (None, graph0)"
proof -
  have "fst (new_AdjacencyList ''root'' ''g'' 0) = None" by code_simp
  then show ?thesis by (simp add: graph0_def prod_eq_iff)
qed

lemma graph0_list:
  "list graph0 = [(''root'', \<lparr>name = ''root'', duration = 0, parents = None, children = None,
                    color = Color1, start = None\<rparr>)]"
  "rootName graph0 = ''root''"
  by (simp_all add: graph0_def new_AdjacencyList_def addNode_unfold MAX_NODES_def has_def
        runCommonValidation_def findLoop_def addNode_write_def)

lemma graph3_reachable: "reachable graph3"
  unfolding graph3_def graph2_def graph1_def
  by (intro reachable.intros(2)) (rule reachable.intros(1), rule graph0_eq)

lemma graph2_reachable: "reachable graph2"
  unfolding graph2_def graph1_def
  by (intro reachable.intros(2)) (rule reachable.intros(1), rule graph0_eq)

section \<open>No cycle in a reachable graph\<close>

text \<open>
  C2. In every graph reachable from a freshly constructed one by calls of
  \<^verbatim>\<open>addNode\<close>, \<^verbatim>\<open>updateNode\<close> and \<^verbatim>\<open>removeNode\<close>, the parent edges
  and the child edges taken together have no directed cycle. And when a proposed parent
  \<open>p\<close> can be reached from a proposed child \<open>c\<close>, the loop search finds it, and

    \<^item> \<^verbatim>\<open>addNode\<close> with the parent array \<open>ps\<close> and the child array \<open>cs\<close> throws
      and leaves the graph as it was; the signal is \<^verbatim>\<open>GraphLoop\<close> when the checks
      that precede the loop search pass: the graph is below its capacity, the name is
      new and not empty, the duration is neither zero (for a node other than the root)
      nor negative, every parent exists and is not the node, every child exists and is
      neither the node nor the root;

    \<^item> \<^verbatim>\<open>updateNode\<close> throws and leaves the graph as it was, where \<open>ps\<close> and
      \<open>cs\<close> are the arrays that the call validates: the array passed, or for an omitted
      argument the copy of the node's current parents or children (likewise for the
      duration and the new name); the signal is \<^verbatim>\<open>GraphLoop\<close> when the checks that
      precede the loop search pass: the node is not the root and exists, the new name
      is not the name of another node, and the checks of the validation as above.
\<close>

theorem reachable_acyclic:
  assumes "reachable g"
  shows "acyclic (EP g \<union> EC g) \<and>
         (c \<in> set cs \<longrightarrow> p \<in> set ps \<longrightarrow> (c, p) \<in> (EP g \<union> EC g)\<^sup>* \<longrightarrow>
            findLoop g (Some ps) (Some cs) \<and>
            (\<exists>e. addNode g nm dur (Some ps) (Some cs) col st True = (Some e, g)) \<and>
            (length (list g) < MAX_NODES \<longrightarrow> \<not> has (list g) nm \<longrightarrow>
             nm \<noteq> [] \<longrightarrow> \<not> (dur = 0 \<and> nm \<noteq> rootName g) \<longrightarrow> \<not> dur < 0 \<longrightarrow>
             (\<forall>q\<in>set ps. has (list g) q \<and> q \<noteq> nm) \<longrightarrow>
             (\<forall>d\<in>set cs. has (list g) d \<and> d \<noteq> nm \<and> d \<noteq> rootName g) \<longrightarrow>
               addNode g nm dur (Some ps) (Some cs) col st True = (Some GraphLoop, g)) \<and>
            ((case parentsArg of
                None \<Rightarrow> Some (case map_of (list g) nm of None \<Rightarrow> [] | Some n \<Rightarrow> orEmpty (parents n))
              | Some v \<Rightarrow> v) = Some ps \<longrightarrow>
             (case childrenArg of
                None \<Rightarrow> Some (case map_of (list g) nm of None \<Rightarrow> [] | Some n \<Rightarrow> orEmpty (children n))
              | Some v \<Rightarrow> v) = Some cs \<longrightarrow>
             (case durArg of
                None \<Rightarrow> (case map_of (list g) nm of None \<Rightarrow> 0 | Some n \<Rightarrow> duration n)
              | Some v \<Rightarrow> v) = dur \<longrightarrow>
             (case newNameArg of None \<Rightarrow> nm | Some v \<Rightarrow> v) = newName \<longrightarrow>
               (\<exists>e. updateNode g nm newNameArg durArg parentsArg childrenArg colArg stArg
                      = (Some e, g)) \<and>
               (nm \<noteq> rootName g \<longrightarrow> \<not> (has (list g) newName \<and> newName \<noteq> nm) \<longrightarrow>
                has (list g) nm \<longrightarrow>
                nm \<noteq> [] \<longrightarrow> \<not> (dur = 0 \<and> nm \<noteq> rootName g) \<longrightarrow> \<not> dur < 0 \<longrightarrow>
                (\<forall>q\<in>set ps. has (list g) q \<and> q \<noteq> nm) \<longrightarrow>
                (\<forall>d\<in>set cs. has (list g) d \<and> d \<noteq> nm \<and> d \<noteq> rootName g) \<longrightarrow>
                  updateNode g nm newNameArg durArg parentsArg childrenArg colArg stArg
                    = (Some GraphLoop, g))))"
proof -
  from reachable_wf [OF assms] have eq: "EP g \<union> EC g = EC g" and ac: "acyclic (EC g)"
    by (simp_all add: wf_graph_def)
  have "?thesis" if nopath: "\<not> (c \<in> set cs \<and> p \<in> set ps \<and> (c, p) \<in> (EC g)\<^sup>*)"
    unfolding eq using ac nopath by blast
  moreover have "?thesis" if path: "c \<in> set cs \<and> p \<in> set ps \<and> (c, p) \<in> (EC g)\<^sup>*"
  proof -
    have fl: "findLoop g (Some ps) (Some cs)"
      using path findLoop_sound [of g ps cs c p] by (auto simp: EC_def)
    from findLoop_validation [OF fl] obtain e0
      where e0: "runCommonValidation g nm dur (Some ps) (Some cs) = Some e0"
      by blast
    have a1: "\<exists>e. addNode g nm dur (Some ps) (Some cs) col st True = (Some e, g)"
      using e0 by (simp add: addNode_unfold)
    have a2: "addNode g nm dur (Some ps) (Some cs) col st True = (Some GraphLoop, g)"
      if "length (list g) < MAX_NODES" "\<not> has (list g) nm" "nm \<noteq> []"
        "\<not> (dur = 0 \<and> nm \<noteq> rootName g)" "\<not> dur < 0"
        "\<forall>q\<in>set ps. has (list g) q \<and> q \<noteq> nm"
        "\<forall>d\<in>set cs. has (list g) d \<and> d \<noteq> nm \<and> d \<noteq> rootName g"
    proof -
      have "runCommonValidation g nm dur (Some ps) (Some cs) = Some GraphLoop"
        by (rule runCommonValidation_GraphLoop [OF fl]) (use that in blast)+
      then show ?thesis using that(1,2) by (simp add: addNode_unfold)
    qed
    have u: "(\<exists>e. updateNode g nm newNameArg durArg parentsArg childrenArg colArg stArg
                      = (Some e, g)) \<and>
               (nm \<noteq> rootName g \<longrightarrow> \<not> (has (list g) newName \<and> newName \<noteq> nm) \<longrightarrow>
                has (list g) nm \<longrightarrow>
                nm \<noteq> [] \<longrightarrow> \<not> (dur = 0 \<and> nm \<noteq> rootName g) \<longrightarrow> \<not> dur < 0 \<longrightarrow>
                (\<forall>q\<in>set ps. has (list g) q \<and> q \<noteq> nm) \<longrightarrow>
                (\<forall>d\<in>set cs. has (list g) d \<and> d \<noteq> nm \<and> d \<noteq> rootName g) \<longrightarrow>
                  updateNode g nm newNameArg durArg parentsArg childrenArg colArg stArg
                    = (Some GraphLoop, g))"
      if P: "(case parentsArg of
                None \<Rightarrow> Some (case map_of (list g) nm of None \<Rightarrow> [] | Some n \<Rightarrow> orEmpty (parents n))
              | Some v \<Rightarrow> v) = Some ps"
        and C: "(case childrenArg of
                None \<Rightarrow> Some (case map_of (list g) nm of None \<Rightarrow> [] | Some n \<Rightarrow> orEmpty (children n))
              | Some v \<Rightarrow> v) = Some cs"
        and D: "(case durArg of
                None \<Rightarrow> (case map_of (list g) nm of None \<Rightarrow> 0 | Some n \<Rightarrow> duration n)
              | Some v \<Rightarrow> v) = dur"
        and N: "(case newNameArg of None \<Rightarrow> nm | Some v \<Rightarrow> v) = newName"
    proof -
      note shape = updateNode_validation [of g nm durArg parentsArg childrenArg _ newNameArg colArg stArg,
          unfolded P C D N]
      have 1: "\<exists>e. updateNode g nm newNameArg durArg parentsArg childrenArg colArg stArg
                      = (Some e, g)"
        using shape [OF e0] by simp
      have 2: "updateNode g nm newNameArg durArg parentsArg childrenArg colArg stArg
                    = (Some GraphLoop, g)"
        if "nm \<noteq> rootName g" "\<not> (has (list g) newName \<and> newName \<noteq> nm)" "has (list g) nm"
          "nm \<noteq> []" "\<not> (dur = 0 \<and> nm \<noteq> rootName g)" "\<not> dur < 0"
          "\<forall>q\<in>set ps. has (list g) q \<and> q \<noteq> nm"
          "\<forall>d\<in>set cs. has (list g) d \<and> d \<noteq> nm \<and> d \<noteq> rootName g"
      proof -
        have "runCommonValidation g nm dur (Some ps) (Some cs) = Some GraphLoop"
          by (rule runCommonValidation_GraphLoop [OF fl]) (use that in blast)+
        from shape [OF this] show ?thesis using that(1,2,3) by simp
      qed
      from 1 2 show ?thesis by blast
    qed
    show ?thesis
      unfolding eq using ac fl a1 a2 u by blast
  qed
  ultimately show ?thesis by blast
qed

theorem reachable_acyclic_witness:
  "reachable graph3 \<and> acyclic (EP graph3 \<union> EC graph3) \<and>
   (''A'', ''C'') \<in> (EP graph3 \<union> EC graph3)\<^sup>* \<and>
   findLoop graph3 (Some [''C'']) (Some [''A'']) \<and>
   addNode graph3 ''D'' 1 (Some [''C'']) (Some [''A'']) Color1 None True = (Some GraphLoop, graph3) \<and>
   reachable graph2 \<and>
   (case map_of (list graph2) ''A'' of None \<Rightarrow> [] | Some n \<Rightarrow> orEmpty (children n)) = [''B''] \<and>
   updateNode graph2 ''A'' None None (Some (Some [''B''])) None None None = (Some GraphLoop, graph2)"
proof -
  have "childrenOf (list graph3) ''A'' = [''B'', ''C'']" by code_simp
  then have "(''A'', ''C'') \<in> EC graph3" by (simp add: EC_def in_Ec)
  then have path: "(''A'', ''C'') \<in> (EP graph3 \<union> EC graph3)\<^sup>*" by blast
  have a: "length (list graph3) < MAX_NODES" "\<not> has (list graph3) ''D''"
    "has (list graph3) ''C''" "has (list graph3) ''A''" "rootName graph3 = ''root''"
    by code_simp+
  from reachable_acyclic [OF graph3_reachable, where c = "''A''" and cs = "[''A'']"
      and p = "''C''" and ps = "[''C'']" and nm = "''D''" and dur = 1 and col = Color1
      and st = None]
  have 1: "acyclic (EP graph3 \<union> EC graph3)" "findLoop graph3 (Some [''C'']) (Some [''A''])"
    "addNode graph3 ''D'' 1 (Some [''C'']) (Some [''A'']) Color1 None True = (Some GraphLoop, graph3)"
    using path a by simp_all
  have u: "(case map_of (list graph2) ''A'' of None \<Rightarrow> [] | Some n \<Rightarrow> orEmpty (children n)) = [''B'']"
    "(case map_of (list graph2) ''A'' of None \<Rightarrow> 0 | Some n \<Rightarrow> duration n) = 5"
    "has (list graph2) ''A''" "has (list graph2) ''B''" "rootName graph2 = ''root''"
    by code_simp+
  from reachable_acyclic [OF graph2_reachable, where c = "''B''" and cs = "[''B'']"
      and p = "''B''" and ps = "[''B'']" and nm = "''A''" and dur = 5 and newName = "''A''"
      and newNameArg = None and durArg = None and parentsArg = "Some (Some [''B''])"
      and childrenArg = None and colArg = None and stArg = None]
  have 2: "updateNode graph2 ''A'' None None (Some (Some [''B''])) None None None
             = (Some GraphLoop, graph2)"
    using u by simp
  show ?thesis using graph3_reachable graph2_reachable path 1 2 u(1) by simp
qed

section \<open>The node limit\<close>

lemma bindChildNode_keys: "map fst (list (bindChildNode g c n)) = map fst (list g)"
  using bindChildNode_moves [of g c n] by (simp add: moves_def)

lemma unbindChildNode_keys: "map fst (list (unbindChildNode g c n)) = map fst (list g)"
  using unbindChildNode_moves [of g c n] by (simp add: moves_def)

lemma fold_keys:
  assumes "\<And>x h. map fst (list (f x h)) = map fst (list h)"
  shows "map fst (list (fold f xs g)) = map fst (list g)"
  using assms by (induction xs arbitrary: g) simp_all

lemma addNode_write_keys:
  "map fst (list (addNode_write g nm dur ps cs col st)) =
     (if nm \<in> set (map fst (list g)) then map fst (list g) else map fst (list g) @ [nm])"
  unfolding addNode_write_def Let_def case_fold
  by (simp add: fold_keys bindChildNode_keys update_keys)

lemma removeNode_write_keys:
  "map fst (list (removeNode_write g nm u node)) = removeAll nm (map fst (list g))"
proof -
  have "map fst (list (fold (\<lambda>child h.
                         let h1 = unbindChildNode h child nm
                         in if \<not> u
                            then fold (\<lambda>parent k. bindChildNode k child parent)
                                   (orEmpty (parents node)) h1
                            else h1) (orEmpty (children node))
                 (fold (\<lambda>parent h. unbindChildNode h nm parent) (orEmpty (parents node)) g)))
         = map fst (list g)"
    by (simp add: fold_keys unbindChildNode_keys bindChildNode_keys Let_def)
  then show ?thesis
    unfolding removeNode_write_def Let_def
    using strikeFromRoot_effect by (simp add: delete_keys)
qed

lemma length_keys: "length (list g) = length (map fst (list g))"
  by simp

lemma addNode_length:
  "length (list (snd (addNode g nm dur ps cs col st v))) \<le> max (length (list g)) MAX_NODES"
proof -
  have "length (list (addNode_write g nm dur ps cs col st)) \<le> Suc (length (list g))"
    by (subst length_keys) (simp add: addNode_write_keys)
  then show ?thesis
    by (simp add: addNode_unfold split: option.split)
qed

lemma removeNode_length:
  "length (list (snd (removeNode g nm u))) \<le> length (list g)"
proof -
  have "length (list (removeNode_write g nm u node)) \<le> length (list g)" for node
    by (subst length_keys) (simp add: removeNode_write_keys removeAll_filter_not_eq)
  then show ?thesis
    by (simp add: removeNode_unfold split: option.split)
qed

lemma updateNode_shape:
  "snd (updateNode g N a b c d e f) = g \<or>
   snd (updateNode g N a b c d e f) = snd (removeNode g N True) \<or>
   (\<exists>newName dur ps cs col st.
      updateNode g N a b c d e f = addNode (snd (removeNode g N True)) newName dur ps cs col st False)"
proof -
  define node where "node = map_of (list g) N"
  define newName where "newName = (case a of None \<Rightarrow> N | Some v \<Rightarrow> v)"
  define dur where "dur = (case b of
                  None \<Rightarrow> (case node of None \<Rightarrow> 0 | Some n \<Rightarrow> duration n)
                | Some v \<Rightarrow> v)"
  define ps where "ps = (case c of
                 None \<Rightarrow> Some (case node of None \<Rightarrow> [] | Some n \<Rightarrow> orEmpty (parents n))
               | Some v \<Rightarrow> v)"
  define cs where "cs = (case d of
                 None \<Rightarrow> Some (case node of None \<Rightarrow> [] | Some n \<Rightarrow> orEmpty (children n))
               | Some v \<Rightarrow> v)"
  define col where "col = (case e of None \<Rightarrow> defaultColor g | Some v \<Rightarrow> v)"
  define st where "st = (case f of
                 None \<Rightarrow> (case node of None \<Rightarrow> None | Some n \<Rightarrow> start n)
               | Some v \<Rightarrow> v)"
  define ps1 where "ps1 = (if ps = Some [] then None else ps)"
  define cs1 where "cs1 = (if cs = Some [] then None else cs)"
  let ?r = "updateNode g N a b c d e f"
  have unfold: "?r =
     (if N = rootName g then (Some RootChange, g)
        else if has (list g) newName \<and> newName \<noteq> N then (Some EntryDuplicate, g)
        else if \<not> has (list g) N then (Some MissingEntry, g)
        else case runCommonValidation g N dur ps cs of
          Some e \<Rightarrow> (Some e, g)
        | None \<Rightarrow>
           (case fst (removeNode g N True) of
                Some e \<Rightarrow> (Some e, snd (removeNode g N True))
              | None \<Rightarrow> addNode (snd (removeNode g N True)) newName dur ps1 cs1 col st False))"
    unfolding updateNode_def Let_def node_def newName_def dur_def ps_def cs_def col_def st_def
      ps1_def cs1_def ..
  show ?thesis
  proof (cases "N = rootName g \<or> (has (list g) newName \<and> newName \<noteq> N) \<or> \<not> has (list g) N
                 \<or> runCommonValidation g N dur ps cs \<noteq> None")
    case True
    then have "snd ?r = g" unfolding unfold by (auto split: option.splits)
    then show ?thesis by simp
  next
    case False
    show ?thesis
    proof (cases "fst (removeNode g N True)")
      case None
      with False have "?r = addNode (snd (removeNode g N True)) newName dur ps1 cs1 col st False"
        unfolding unfold by auto
      then show ?thesis by blast
    next
      case (Some err)
      with False have "snd ?r = snd (removeNode g N True)"
        unfolding unfold by auto
      then show ?thesis by simp
    qed
  qed
qed

lemma updateNode_length:
  "length (list (snd (updateNode g nm a b c d e f))) \<le> max (length (list g)) MAX_NODES"
proof -
  have "length (list (snd (addNode (snd (removeNode g nm True)) x1 x2 x3 x4 x5 x6 False)))
          \<le> max (length (list g)) MAX_NODES" for x1 x2 x3 x4 x5 x6
    using addNode_length [of "snd (removeNode g nm True)" x1 x2 x3 x4 x5 x6 False]
      removeNode_length [of g nm True] by simp
  moreover have "length (list (snd (removeNode g nm True))) \<le> max (length (list g)) MAX_NODES"
    using removeNode_length [of g nm True] by simp
  ultimately show ?thesis
    using updateNode_shape [of g nm a b c d e f] by (elim disjE exE) simp_all
qed

lemma reachable_length: "reachable g \<Longrightarrow> length (list g) \<le> MAX_NODES"
proof (induction rule: reachable.induct)
  case (reach_new root i d g)
  have "length (list (snd (new_AdjacencyList root i d))) \<le> max 0 MAX_NODES"
    unfolding new_AdjacencyList_def Let_def
    using addNode_length [of "\<lparr>ident = i, list = [], defaultColor = Color1,
              startDate = d, rootName = root\<rparr>" root 0 None None Color1 None True]
    by simp
  with reach_new show ?case by simp
next
  case (reach_add g nm dur ps cs col st)
  then show ?case using addNode_length [of g nm dur ps cs col st True] by simp
next
  case (reach_update g nm newName dur ps cs col st)
  then show ?case using updateNode_length [of g nm newName dur ps cs col st] by simp
next
  case (reach_remove g nm isUpdate)
  then show ?case using removeNode_length [of g nm isUpdate] by simp
next
  case (reach_color g c)
  then show ?case by (simp add: setDefaultColor_def)
next
  case (reach_start g d)
  then show ?case by (simp add: setStartDate_def)
qed

lemma grow_reachable: "reachable (grow n)"
  by (induction n) (auto intro: reachable.intros graph0_eq)

lemma grow_rootName: "rootName (grow n) = ''root''"
proof (induction n)
  case 0
  then show ?case by (simp add: graph0_list)
next
  case (Suc n)
  have "rootName (snd (addNode g nm dur ps cs col st v)) = rootName g" for g nm dur ps cs col st v
  proof -
    have "rootName (fold (\<lambda>x h. bindChildNode h (c x) (p x)) xs h) = rootName h" for c p xs h
      by (induction xs arbitrary: h) (use bindChildNode_moves in \<open>simp_all add: moves_def\<close>)
    from this [of "\<lambda>x. nm" "\<lambda>x. x"] this [of "\<lambda>x. x" "\<lambda>x. nm"] show ?thesis
      by (simp add: addNode_unfold addNode_write_def Let_def case_fold split: option.split)
  qed
  with Suc show ?case by simp
qed

lemma grow_keys:
  "n < 10000 \<Longrightarrow>
     map fst (list (grow n)) = ''root'' # map (\<lambda>i. replicate (Suc i) (CHR ''a'')) [0..<n]"
proof (induction n)
  case 0
  then show ?case by (simp add: graph0_list)
next
  case (Suc n)
  let ?nm = "replicate (Suc n) (CHR ''a'')"
  from Suc have keys: "map fst (list (grow n)) = ''root'' # map (\<lambda>i. replicate (Suc i) (CHR ''a'')) [0..<n]"
    by simp
  have "length (map fst (list (grow n))) = Suc n"
    unfolding keys by simp
  then have len: "length (list (grow n)) = Suc n" by simp
  have neq: "?nm \<noteq> replicate (Suc i) (CHR ''a'')" if "i < n" for i
  proof
    assume "?nm = replicate (Suc i) (CHR ''a'')"
    then have "length ?nm = length (replicate (Suc i) (CHR ''a''))" by (rule arg_cong)
    with that show False by simp
  qed
  have "?nm \<noteq> ''root''"
    by (simp only: replicate_Suc) simp
  with neq have notin: "?nm \<notin> set (map fst (list (grow n)))"
    unfolding keys by auto
  then have nohas: "\<not> has (list (grow n)) ?nm"
    by (simp add: has_def map_of_eq_None_iff)
  have val: "runCommonValidation (grow n) ?nm 1 None None = None"
    by (simp add: runCommonValidation_def findLoop_def)
  have "\<not> MAX_NODES \<le> length (list (grow n))"
    using Suc.prems len by (simp add: MAX_NODES_def)
  then have "addNode (grow n) ?nm 1 None None Color1 None True =
          (None, addNode_write (grow n) ?nm 1 None None Color1 None)"
    unfolding addNode_unfold using nohas val by simp
  then have step: "grow (Suc n) = addNode_write (grow n) ?nm 1 None None Color1 None"
    by (simp only: grow.simps snd_conv)
  have "map fst (list (grow (Suc n))) = map fst (list (grow n)) @ [?nm]"
    unfolding step addNode_write_keys using notin by (simp only: if_False)
  also have "\<dots> = ''root'' # map (\<lambda>i. replicate (Suc i) (CHR ''a'')) [0..<Suc n]"
    unfolding keys by simp
  finally show ?case .
qed

lemma grow_length: "n < 10000 \<Longrightarrow> length (list (grow n)) = Suc n"
proof -
  assume "n < 10000"
  then have "length (map fst (list (grow n))) = Suc n"
    by (simp only: grow_keys) simp
  then show ?thesis by simp
qed

text \<open>
  C7. A reachable graph holds at most 10,000 nodes, the root included, and
  \<^verbatim>\<open>addNode\<close> on a graph that holds 10,000 nodes throws
  \<^verbatim>\<open>NodeLimitExceeded\<close> and leaves the graph as it was. The witness is a
  reachable graph of exactly 10,000 nodes: the bound is attained.
\<close>

theorem node_count_bounded:
  assumes "reachable g"
  shows "getNodeCount g \<le> 10000 \<and>
         (getNodeCount g = 10000 \<longrightarrow>
            addNode g nm dur ps cs col st validate = (Some NodeLimitExceeded, g))"
  using reachable_length [OF assms]
  by (simp add: getNodeCount_def MAX_NODES_def addNode_unfold)

theorem node_count_bounded_witness:
  "reachable (grow 9999) \<and> getNodeCount (grow 9999) = 10000 \<and>
   addNode (grow 9999) ''b'' 1 None None Color1 None True = (Some NodeLimitExceeded, grow 9999)"
proof -
  have r: "reachable (grow 9999)" by (rule grow_reachable)
  have "length (list (grow 9999)) = Suc 9999"
    by (rule grow_length) simp
  then have c: "getNodeCount (grow 9999) = 10000" by (simp add: getNodeCount_def)
  from node_count_bounded [OF r, of "''b''" 1 None None Color1 None True] c r show ?thesis
    by blast
qed

section \<open>An empty parent array\<close>

text \<open>
  C1. The claim is that every node other than the root has a parent in every reachable
  graph, also after \<^verbatim>\<open>addNode\<close> was given an empty parent array. In the code
  only a \<^verbatim>\<open>null\<close> parent array is replaced by the root; for the empty array
  the loop over the parents binds nothing, and the new node \<open>A\<close> is stored with an
  empty parent set while the root has no child.
\<close>

theorem addNode_empty_parents_unbound:
  "fst (addNode graph0 ''A'' 1 (Some []) None Color1 None True) = None \<and>
   map_option parents (map_of (list (snd (addNode graph0 ''A'' 1 (Some []) None Color1 None True))) ''A'')
     = Some (Some []) \<and>
   childrenOf (list (snd (addNode graph0 ''A'' 1 (Some []) None Color1 None True))) ''root'' = []"
  by code_simp

section \<open>The defaults of an update\<close>

text \<open>
  C4. The claim is that \<^verbatim>\<open>updateNode\<close> with only the name supplied leaves
  every attribute of the node as it was. The default of the colour parameter is the
  default colour of the graph, not the colour of the node: the task \<open>B\<close>, added
  with the second colour, has the first colour after the update.
\<close>

theorem updateNode_resets_color:
  "map_option color (map_of (list graph2) ''B'') = Some Color2 \<and>
   defaultColor graph2 = Color1 \<and>
   fst (updateNode graph2 ''B'' None None None None None None) = None \<and>
   map_option color (map_of (list (snd (updateNode graph2 ''B'' None None None None None None))) ''B'')
     = Some Color1"
  by code_simp

section \<open>The schedule builder\<close>

text \<open>
  The store of the \<^verbatim>\<open>Date\<close> objects: the time value of every object, in
  milliseconds since the epoch, and the next free address. \<^verbatim>\<open>new Date(t)\<close>
  allocates, \<^verbatim>\<open>getTime\<close> reads and \<^verbatim>\<open>setTime\<close> writes a time value.
\<close>

record dates =
  times :: "dateref \<Rightarrow> int"
  fresh :: dateref

definition new_Date :: "dates \<Rightarrow> int \<Rightarrow> dateref \<times> dates" where
  "new_Date ds t = (fresh ds, ds\<lparr>times := (times ds)(fresh ds := t), fresh := Suc (fresh ds)\<rparr>)"

definition getTime :: "dates \<Rightarrow> dateref \<Rightarrow> int" where
  "getTime ds d = times ds d"

definition setTime :: "dates \<Rightarrow> dateref \<Rightarrow> int \<Rightarrow> dates" where
  "setTime ds d t = ds\<lparr>times := (times ds)(d := t)\<rparr>"

definition msPerDay :: int where
  "msPerDay = 86400000"

text \<open>
  The type \<^verbatim>\<open>ganttElement\<close>. Its fields carry the prefix \<open>el_\<close>, since a
  record cannot share field names with \<open>entryNode\<close>.
\<close>

record ganttElement =
  el_name :: string
  el_start :: dateref
  el_end :: dateref
  el_parents :: "string list option"
  el_children :: "string list option"
  el_color :: Color
  el_overlappingStart :: "dateref option"

definition createGanttElement ::
  "string \<Rightarrow> dateref \<Rightarrow> dateref \<Rightarrow> string list option \<Rightarrow> string list option \<Rightarrow> Color
     \<Rightarrow> dateref option \<Rightarrow> ganttElement" where
  "createGanttElement nm st en ps cs col overlappingStart =
     \<lparr>el_name = nm, el_start = st, el_end = en, el_parents = ps, el_children = cs,
      el_color = col, el_overlappingStart = overlappingStart\<rparr>"

text \<open>
  \<^verbatim>\<open>sortGanttElements\<close>, the comparator. \<^verbatim>\<open>a.end === b.end\<close> compares the
  two \<^verbatim>\<open>Date\<close> objects by identity, that is, their addresses. \<open>getDate\<close> is the
  day of the month of a time value (\<^verbatim>\<open>Date.prototype.getDate\<close>), a parameter.
\<close>

definition sortGanttElements ::
  "(int \<Rightarrow> int) \<Rightarrow> dates \<Rightarrow> ganttElement \<Rightarrow> ganttElement \<Rightarrow> int" where
  "sortGanttElements getDate ds a b =
     (if el_children a \<noteq> None \<and> el_children b = None then 1
      else if el_children b \<noteq> None \<and> el_children a = None then - 1
      else if el_end a = el_end b then 0
      else if getDate (getTime ds (el_end a)) - getDate (getTime ds (el_end b)) > 0 then 1
      else - 1)"

text \<open>
  \<^verbatim>\<open>Array.prototype.sort\<close> with a comparator, as insertion sort: each element in
  turn is placed before the first element of the sorted part that it precedes
  (comparator below zero), else at the end.
\<close>

fun insertBy :: "('a \<Rightarrow> 'a \<Rightarrow> int) \<Rightarrow> 'a \<Rightarrow> 'a list \<Rightarrow> 'a list" where
  "insertBy cmp x [] = [x]"
| "insertBy cmp x (y # ys) = (if cmp x y < 0 then x # y # ys else y # insertBy cmp x ys)"

definition sortBy :: "('a \<Rightarrow> 'a \<Rightarrow> int) \<Rightarrow> 'a list \<Rightarrow> 'a list" where
  "sortBy cmp xs = foldl (\<lambda>sorted x. insertBy cmp x sorted) [] xs"

text \<open>The state of the loop of \<^verbatim>\<open>createRenderMap\<close>; the head of \<open>dfsStack\<close> is the top.\<close>

record renderState =
  dfsStack :: "string list"
  renderMap :: "(string \<times> ganttElement) list"
  pendingMap :: "(string \<times> int) list"
  dateStore :: dates

text \<open>
  The start computed for a ready child: the project start when the popped node has the
  root name; otherwise the \<^verbatim>\<open>reduce\<close> over the parents of the child, from 0: a
  parent without an element gives the project start, a parent with an element the
  maximum of the running value and the end of that element.
\<close>

definition computedStart ::
  "dates \<Rightarrow> (string \<times> ganttElement) list \<Rightarrow> string \<Rightarrow> dateref \<Rightarrow> entryNode \<Rightarrow> string list \<Rightarrow> int" where
  "computedStart ds rm root projectStart currentNode childNodeParents =
     (if name currentNode = root then getTime ds projectStart
      else foldl (\<lambda>mx current.
                   case map_of rm current of
                     None \<Rightarrow> getTime ds projectStart
                   | Some parentNode \<Rightarrow> max mx (getTime ds (el_end parentNode)))
             0 childNodeParents)"

text \<open>
  The body of the \<^verbatim>\<open>forEach\<close> over the children of the popped node; it threads the
  store, the pending map and the array \<^verbatim>\<open>currentProcessedElements\<close>.
  \<^verbatim>\<open>end.setDate(start.getDate() + duration)\<close> moves the copy of the start by
  \<open>duration\<close> days (no daylight-saving shift: the time zone is taken to be UTC).
\<close>

definition processChild ::
  "adjList \<Rightarrow> string \<Rightarrow> dateref \<Rightarrow> (string \<times> ganttElement) list \<Rightarrow> entryNode \<Rightarrow> string
     \<Rightarrow> dates \<times> (string \<times> int) list \<times> ganttElement list
     \<Rightarrow> dates \<times> (string \<times> int) list \<times> ganttElement list" where
  "processChild adj root projectStart rm currentNode child acc =
     (case acc of (ds, pending, currentProcessedElements) \<Rightarrow>
      case map_of adj child of
        None \<Rightarrow> acc
      | Some childNode \<Rightarrow>
          let childNodeParents = orEmpty (parents childNode) in
          if length childNodeParents = 1 \<or> map_of pending (name childNode) = Some 1 then
            let (startRef, ds1) =
                  new_Date ds (computedStart ds rm root projectStart currentNode childNodeParents);
                (ds2, isStartOverlapping) =
                  (case start childNode of
                     None \<Rightarrow> (ds1, False)
                   | Some userStart \<Rightarrow>
                       if getTime ds1 userStart \<ge> getTime ds1 startRef
                       then (setTime ds1 startRef (getTime ds1 userStart), False)
                       else (ds1, True));
                (endRef, ds3) = new_Date ds2 (getTime ds2 startRef);
                ds4 = setTime ds3 endRef (getTime ds3 startRef + duration childNode * msPerDay)
            in (ds4, pending,
                currentProcessedElements @
                  [createGanttElement (name childNode) startRef endRef (parents childNode)
                     (children childNode) (color childNode)
                     (if isStartOverlapping then start childNode else None)])
          else case map_of pending (name childNode) of
            Some currentCount \<Rightarrow>
              (ds, AList.update (name childNode) (currentCount - 1) pending, currentProcessedElements)
          | None \<Rightarrow>
              (ds, AList.update (name childNode) (int (length childNodeParents) - 1) pending,
               currentProcessedElements))"

text \<open>
  One turn of the \<^verbatim>\<open>while\<close> loop: pop; an empty name is falsy and looks nothing up;
  process the children; sort; record every element and push those with a non-empty
  child set.
\<close>

definition renderStep ::
  "(int \<Rightarrow> int) \<Rightarrow> adjList \<Rightarrow> string \<Rightarrow> dateref \<Rightarrow> renderState \<Rightarrow> renderState" where
  "renderStep getDate adj root projectStart s =
     (case dfsStack s of
        [] \<Rightarrow> s
      | currentNodeName # rest \<Rightarrow>
          let currentNode = (if currentNodeName = [] then None else map_of adj currentNodeName);
              (ds, pending, currentProcessedElements) =
                (case currentNode of
                   None \<Rightarrow> (dateStore s, pendingMap s, [])
                 | Some node \<Rightarrow>
                     fold (processChild adj root projectStart (renderMap s) node)
                       (orEmpty (children node)) (dateStore s, pendingMap s, []));
              sorted = sortBy (sortGanttElements getDate ds) currentProcessedElements
          in \<lparr>dfsStack =
                 rev (map el_name
                       (filter (\<lambda>element. case el_children element of
                                            None \<Rightarrow> False | Some cs \<Rightarrow> length cs \<noteq> 0) sorted))
                 @ rest,
              renderMap = fold (\<lambda>element m. AList.update (el_name element) element m) sorted (renderMap s),
              pendingMap = pending,
              dateStore = ds\<rparr>)"

text \<open>
  \<^verbatim>\<open>createRenderMap\<close>: the loop runs while the stack is not empty; \<open>None\<close> is a
  loop that never ends. The result is the render map together with the store.
\<close>

definition createRenderMap ::
  "(int \<Rightarrow> int) \<Rightarrow> dates \<Rightarrow> adjList \<Rightarrow> string \<Rightarrow> dateref \<Rightarrow> string
     \<Rightarrow> ((string \<times> ganttElement) list \<times> dates) option" where
  "createRenderMap getDate ds adj root projectStart initialNodeName =
     map_option (\<lambda>s. (renderMap s, dateStore s))
       (while_option (\<lambda>s. dfsStack s \<noteq> []) (renderStep getDate adj root projectStart)
          \<lparr>dfsStack = [initialNodeName], renderMap = [], pendingMap = [], dateStore = ds\<rparr>)"

text \<open>Example inputs.\<close>

definition dates0 :: dates where
  "dates0 = \<lparr>times = (\<lambda>_. 0)(0 := 1767225600000), fresh = 1\<rparr>"

text \<open>
  The day of the month of a time value in UTC, by the usual conversion of a day count to
  a civil date; an instance of the parameter \<open>getDate\<close>.
\<close>

definition getDateUTC :: "int \<Rightarrow> int" where
  "getDateUTC t =
     (let z = t div msPerDay + 719468;
          doe = z mod 146097;
          yoe = (doe - doe div 1460 + doe div 36524 - doe div 146096) div 365;
          doy = doe - (365 * yoe + yoe div 4 - yoe div 100);
          mp = (5 * doy + 2) div 153
      in doy - (153 * mp + 2) div 5 + 1)"

section \<open>The start of a child below a parent without an element\<close>

text \<open>
  The project starts on 2026-01-01 (the \<^verbatim>\<open>Date\<close> object at address 0). In the
  graph \<open>graphX\<close> the task \<open>X\<close> has the children \<open>A\<close> (5 days) and \<open>C\<close>, and
  \<open>C\<close> has the parents \<open>A\<close> and \<open>X\<close>, in this order; \<open>graphX2\<close> is the same
  graph with the parents of \<open>C\<close> given in the order \<open>X\<close>, \<open>A\<close>.
\<close>

definition graphX :: graph where
  "graphX =
     (let g1 = snd (addNode graph0 ''X'' 2 None None Color1 None True);
          g2 = snd (addNode g1 ''A'' 5 (Some [''X'']) None Color1 None True)
      in snd (addNode g2 ''C'' 1 (Some [''A'', ''X'']) None Color1 None True))"

definition graphX2 :: graph where
  "graphX2 =
     (let g1 = snd (addNode graph0 ''X'' 2 None None Color1 None True);
          g2 = snd (addNode g1 ''A'' 5 (Some [''X'']) None Color1 None True)
      in snd (addNode g2 ''C'' 1 (Some [''X'', ''A'']) None Color1 None True))"

text \<open>
  C3. The claim is that the start computed for a ready child, when the popped node is
  not the root, is the latest end among the parents that have an element, a parent
  without an element contributing the project start as a floor. In the code a parent
  without an element does not enter the maximum: it replaces the running value by the
  project start. The traversal of \<open>graphX\<close> from the task \<open>X\<close> gives \<open>X\<close> no
  element, ends \<open>A\<close> on 2026-01-06 and, the parents of \<open>C\<close> being \<open>A\<close> and then
  \<open>X\<close>, starts \<open>C\<close> on 2026-01-01, five days before its parent \<open>A\<close> ends. With
  the parents in the other order the start of \<open>C\<close> is 2026-01-06, as claimed.
\<close>

theorem computed_start_reset:
  "map_option parents (map_of (list graphX) ''C'') = Some (Some [''A'', ''X'']) \<and>
   map_option (\<lambda>(rm, ds).
      (map_of rm ''X'' = None,
       map_option (\<lambda>e. getTime ds (el_end e)) (map_of rm ''A''),
       map_option (\<lambda>e. getTime ds (el_start e)) (map_of rm ''C'')))
     (createRenderMap getDateUTC dates0 (list graphX) ''root'' 0 ''X'')
     = Some (True, Some 1767657600000, Some 1767225600000) \<and>
   map_option parents (map_of (list graphX2) ''C'') = Some (Some [''X'', ''A'']) \<and>
   map_option (\<lambda>(rm, ds).
      (map_of rm ''X'' = None,
       map_option (\<lambda>e. getTime ds (el_end e)) (map_of rm ''A''),
       map_option (\<lambda>e. getTime ds (el_start e)) (map_of rm ''C'')))
     (createRenderMap getDateUTC dates0 (list graphX2) ''root'' 0 ''X'')
     = Some (True, Some 1767657600000, Some 1767657600000)"
  by code_simp

section \<open>The local order of the ready children\<close>
















section \<open>The traversal\<close>











text \<open>The render map after the elements have been recorded.\<close>

lemma record_Some:
  assumes "map_of (fold (\<lambda>element m. AList.update (el_name element) element m) els rm) k = Some el"
  shows "(el \<in> set els \<and> el_name el = k) \<or> map_of rm k = Some el"
  using assms
proof (induction els arbitrary: rm)
  case Nil
  then show ?case by simp
next
  case (Cons e els)
  from Cons.IH [of "AList.update (el_name e) e rm"] Cons.prems
  have "(el \<in> set els \<and> el_name el = k) \<or> map_of (AList.update (el_name e) e rm) k = Some el"
    by simp
  then show ?case
    by (auto simp: update_conv' split: if_splits)
qed

lemma record_has:
  assumes "(\<exists>el\<in>set els. el_name el = k) \<or> map_of rm k \<noteq> None"
  shows "map_of (fold (\<lambda>element m. AList.update (el_name element) element m) els rm) k \<noteq> None"
  using assms
proof (induction els arbitrary: rm)
  case Nil
  then show ?case by simp
next
  case (Cons e els)
  have "(\<exists>el\<in>set els. el_name el = k) \<or> map_of (AList.update (el_name e) e rm) k \<noteq> None"
    using Cons.prems by (auto simp: update_conv')
  from Cons.IH [OF this] show ?case by simp
qed


section \<open>The input is only read\<close>







section \<open>The pattern search\<close>

text \<open>
  A JavaScript string is a sequence of UTF-16 code units; \<^verbatim>\<open>s[i]\<close> is
  \<^verbatim>\<open>undefined\<close> (\<open>None\<close>) beyond the end.
\<close>

type_synonym jsString = "nat list"

definition charAt :: "'a list \<Rightarrow> nat \<Rightarrow> 'a option" where
  "charAt s i = (if i < length s then Some (s ! i) else None)"

text \<open>
  The array \<^verbatim>\<open>lsp\<close>: \<^verbatim>\<open>new Array(n)\<close> has \<open>n\<close> empty slots (\<open>None\<close>), an
  assignment beyond the end extends the array, and \<^verbatim>\<open>lsp[i] ?? 0\<close> reads 0 from an
  empty slot and beyond the end.
\<close>

definition new_Array :: "nat \<Rightarrow> nat option list" where
  "new_Array n = replicate n None"

definition arraySet :: "nat option list \<Rightarrow> nat \<Rightarrow> nat \<Rightarrow> nat option list" where
  "arraySet a i v =
     (if i < length a then a[i := Some v] else a @ replicate (i - length a) None @ [Some v])"

definition arrayGet :: "nat option list \<Rightarrow> nat \<Rightarrow> nat" where
  "arrayGet a i = (case charAt a i of Some (Some v) \<Rightarrow> v | _ \<Rightarrow> 0)"

text \<open>
  \<^verbatim>\<open>buildLspArray\<close>: the \<^verbatim>\<open>for\<close> loop runs over the indices from 1; its inner
  \<^verbatim>\<open>while\<close> loop may in principle run forever, so the result is an option.
\<close>

fun buildLspArray_for ::
  "'a list \<Rightarrow> nat list \<Rightarrow> nat option list \<Rightarrow> nat \<Rightarrow> nat option list option" where
  "buildLspArray_for pattern [] lsp len = Some lsp"
| "buildLspArray_for pattern (i # rest) lsp len =
     (case while_option (\<lambda>len. len > 0 \<and> charAt pattern i \<noteq> charAt pattern len)
             (\<lambda>len. arrayGet lsp (len - 1)) len of
        None \<Rightarrow> None
      | Some len1 \<Rightarrow>
          let len2 = (if charAt pattern i = charAt pattern len1 then len1 + 1 else len1)
          in buildLspArray_for pattern rest (arraySet lsp i len2) len2)"

definition buildLspArray :: "'a list \<Rightarrow> nat option list option" where
  "buildLspArray pattern =
     buildLspArray_for pattern [1..<length pattern] (arraySet (new_Array (length pattern)) 0 0) 0"

text \<open>
  The state of the loop of \<^verbatim>\<open>getMaxLsp\<close>; \<open>returned\<close> holds the value of the
  \<^verbatim>\<open>return\<close> inside the loop.
\<close>

record searchState =
  textIndex :: nat
  patternIndex :: nat
  maxLsp :: nat
  returned :: "nat option"

definition searchStep :: "'a list \<Rightarrow> 'a list \<Rightarrow> nat option list \<Rightarrow> searchState \<Rightarrow> searchState" where
  "searchStep lowerPattern lowerText lsp s =
     (if charAt lowerText (textIndex s) = charAt lowerPattern (patternIndex s) then
        let s1 = s\<lparr>textIndex := textIndex s + 1, patternIndex := patternIndex s + 1,
                   maxLsp := max (maxLsp s) (patternIndex s + 1)\<rparr>
        in if patternIndex s1 = length lowerPattern
           then s1\<lparr>returned := Some (length lowerPattern)\<rparr>
           else s1
      else if patternIndex s \<noteq> 0
        then s\<lparr>patternIndex := arrayGet lsp (patternIndex s - 1)\<rparr>
        else s\<lparr>textIndex := textIndex s + 1\<rparr>)"

text \<open>
  \<^verbatim>\<open>getMaxLsp\<close>. \<^verbatim>\<open>String.prototype.toLowerCase\<close> is the parameter
  \<open>toLowerCase\<close>. The result is \<open>None\<close> when a loop does not end.
\<close>

definition getMaxLsp :: "('a list \<Rightarrow> 'a list) \<Rightarrow> 'a list \<Rightarrow> 'a list \<Rightarrow> nat option" where
  "getMaxLsp toLowerCase pattern text =
     (if length pattern = 0 \<or> length text = 0 then Some 0
      else if length pattern > length text then Some 0
      else
        let lowerPattern = toLowerCase pattern;
            lowerText = toLowerCase text
        in case buildLspArray lowerPattern of
             None \<Rightarrow> None
           | Some lsp \<Rightarrow>
               map_option (\<lambda>s. case returned s of Some r \<Rightarrow> r | None \<Rightarrow> maxLsp s)
                 (while_option (\<lambda>s. returned s = None \<and> textIndex s < length lowerText)
                    (searchStep lowerPattern lowerText lsp)
                    \<lparr>textIndex = 0, patternIndex = 0, maxLsp = 0, returned = None\<rparr>))"

text \<open>
  The lower-casing of JavaScript on the code units used below: a capital letter of Basic
  Latin becomes the small letter; U+0130 (capital I with dot above) becomes the two code
  units U+0069 U+0307; every other code unit is left as it is.
\<close>

definition toLowerCaseUnit :: "nat \<Rightarrow> nat list" where
  "toLowerCaseUnit c =
     (if 65 \<le> c \<and> c \<le> 90 then [c + 32] else if c = 304 then [105, 775] else [c])"

definition toLowerCaseJS :: "jsString \<Rightarrow> jsString" where
  "toLowerCaseJS s = concat (map toLowerCaseUnit s)"

text \<open>
  C9. The claim is that \<^verbatim>\<open>getMaxLsp(pattern, text)\<close> is the length of the pattern
  exactly when the pattern occurs in the text, letter case aside. The early returns of
  the code compare the lengths of the strings as given, while the value returned for a
  match is the length of the lower-cased pattern, and lower-casing can lengthen a
  string: for the pattern and the text that consist of the one code unit U+0130 (capital I
  with dot above, lower-cased to two code units) the result is 2, not the length 1 of
  the pattern, although the pattern is the text. The interface compares the result with the length of the pattern as given and so
  does not find this task by its own name. For comparison, the pattern \<^verbatim>\<open>"dev"\<close> in
  the text \<^verbatim>\<open>"Development"\<close> gives 3.
\<close>

theorem getMaxLsp_lowercase_length:
  "toLowerCaseJS [304] = [105, 775] \<and>
   getMaxLsp toLowerCaseJS [304] [304] = Some 2 \<and>
   length [304 :: nat] = 1 \<and>
   getMaxLsp toLowerCaseJS [100, 101, 118] [68, 101, 118, 101, 108, 111, 112, 109, 101, 110, 116]
     = Some 3"
  by code_simp

end
